theory Spec2Isabelle
  imports Main "HOL-Library.Word"
begin

section \<open>Win32 objects used by qemu-thread-win32.c\<close>

text \<open>
  Thread identifiers are DWORDs and the counters are LONGs: 32-bit words, on which
  \<open>InterlockedIncrement\<close> and \<open>InterlockedDecrement\<close> wrap. \<open>GetCurrentThreadId\<close>
  never returns 0, and the source uses 0 for "no owner".
\<close>

type_synonym tid = "32 word"
type_synonym long = "32 word"

definition LONG_MAX :: nat where
  "LONG_MAX = 2147483647"

text \<open>
  A semaphore object is the number of units it holds (its maximum is \<open>LONG_MAX\<close> in
  every \<open>CreateSemaphore\<close> call of the source). \<open>ReleaseSemaphore h n\<close> fails, changing
  nothing, when \<open>n\<close> is not positive as a signed LONG or when the maximum would be exceeded.
\<close>

definition ReleaseSemaphore :: "nat \<Rightarrow> long \<Rightarrow> nat option" where
  "ReleaseSemaphore units n =
     (if sint n \<le> 0 \<or> units + unat n > LONG_MAX then None else Some (units + unat n))"

text \<open>\<open>WaitForSingleObject\<close> on a semaphore with \<open>INFINITE\<close>: takes a unit, or does not return yet.\<close>

definition WaitForSemaphore :: "nat \<Rightarrow> nat option" where
  "WaitForSemaphore units = (if units = 0 then None else Some (units - 1))"

subsection \<open>The records\<close>

text \<open>
  Modelled from the spec: the declarations of \<open>QemuMutex\<close> and \<open>QemuCond\<close> (the header
  \<open>qemu-thread.h\<close> is not among the sources). The fields are those the functions
  use, typed as the Win32 calls they are passed to require.
  \<open>QemuMutex\<close>: \<open>count\<close>, the lazily created semaphore \<open>sema\<close> (\<open>None\<close> is the NULL handle)
  and \<open>owner\<close>. \<open>QemuCond\<close>: \<open>waiters\<close>, \<open>target\<close>, the semaphore \<open>sema\<close> and the
  auto-reset event \<open>continue_event\<close> (\<open>True\<close> is signaled); its field \<open>mutex\<close>, set once
  by \<open>qemu_cond_init\<close>, is the one mutex of the states below.
\<close>

record QemuMutex =
  m_count :: long
  m_sema :: "nat option"
  m_owner :: tid

record QemuCond =
  c_waiters :: long
  c_target :: long
  c_sema :: nat
  c_event :: bool

datatype error = AssertFailed | ErrorExit

section \<open>Functions that run without a suspension point\<close>

text \<open>\<open>qemu_mutex_init\<close> writes \<open>count\<close> and \<open>sema\<close> only; \<open>owner\<close> keeps what the memory held.\<close>

definition qemu_mutex_init :: "QemuMutex \<Rightarrow> QemuMutex" where
  "qemu_mutex_init m = m\<lparr>m_count := 0, m_sema := None\<rparr>"

text \<open>
  \<open>qemu_cond_init\<close>: no waiter, target 0, a semaphore without units and an auto-reset
  event that is not signaled (the creation of the two objects is taken to succeed).
\<close>

definition qemu_cond_init :: "QemuCond \<Rightarrow> QemuCond" where
  "qemu_cond_init c = c\<lparr>c_waiters := 0, c_target := 0, c_sema := 0, c_event := False\<rparr>"

text \<open>
  \<open>qemu_mutex_destroy\<close>: the two assertions, then \<open>CloseHandle\<close> when the handle is not
  NULL. The function stores nothing: the mutex is returned as it was (its \<open>sema\<close> field
  keeps the handle that was closed), together with whether \<open>CloseHandle\<close> was called.
  The function never asks which thread calls it.
\<close>

definition qemu_mutex_destroy :: "QemuMutex \<Rightarrow> error + (bool \<times> QemuMutex)" where
  "qemu_mutex_destroy m =
     (if m_count m \<noteq> 0 then Inl AssertFailed
      else if m_owner m \<noteq> 0 then Inl AssertFailed
      else Inr (m_sema m \<noteq> None, m))"

text \<open>
  \<open>qemu_mutex_trylock\<close> (win32): the assertion, then \<open>InterlockedCompareExchange(&count, 1, 0)\<close>.
  The result is the C return value: \<open>False\<close> when the exchange happened.
\<close>

definition InterlockedCompareExchange :: "long \<Rightarrow> long \<Rightarrow> long \<Rightarrow> long \<times> long" where
  "InterlockedCompareExchange dest exch cmp = (if dest = cmp then (exch, dest) else (dest, dest))"

definition qemu_mutex_trylock :: "tid \<Rightarrow> QemuMutex \<Rightarrow> error + (bool \<times> QemuMutex)" where
  "qemu_mutex_trylock self m =
     (if m_owner m = self then Inl AssertFailed
      else (case InterlockedCompareExchange (m_count m) 1 0 of
              (c', old) \<Rightarrow>
                if old = 0 then Inr (False, m\<lparr>m_count := c', m_owner := self\<rparr>)
                else Inr (True, m\<lparr>m_count := c'\<rparr>)))"

text \<open>
  \<open>qemu_mutex_trylock\<close> (posix): a wrapper of \<open>pthread_mutex_trylock\<close>, whose result \<open>err\<close>
  is taken as given (0 when the native lock was acquired, an error number such as
  \<open>EBUSY\<close> otherwise). The function returns \<open>!!err\<close> and records the owner when \<open>err\<close> is 0.
\<close>

record PosixMutex =
  p_locked :: bool
  p_owner :: "nat option"

definition EBUSY :: int where
  "EBUSY = 16"

definition pthread_mutex_trylock :: "PosixMutex \<Rightarrow> int \<times> PosixMutex" where
  "pthread_mutex_trylock m = (if p_locked m then (EBUSY, m) else (0, m\<lparr>p_locked := True\<rparr>))"

definition lnot :: "int \<Rightarrow> int" where
  "lnot x = (if x = 0 then 1 else 0)"

definition posix_qemu_mutex_trylock :: "nat \<Rightarrow> PosixMutex \<Rightarrow> int \<times> PosixMutex" where
  "posix_qemu_mutex_trylock self m =
     (case pthread_mutex_trylock m of
        (err, m') \<Rightarrow>
          (lnot (lnot err), if err = 0 then m'\<lparr>p_owner := Some self\<rparr> else m'))"

section \<open>The functions as steps of concurrently running threads\<close>

text \<open>
  Every thread is at a program point. \<open>Idle\<close> and \<open>Crit\<close> are the two points of the
  calling code: outside every call, and between the return of \<open>qemu_mutex_lock\<close> (or of a
  successful \<open>qemu_mutex_trylock\<close>, or of \<open>qemu_cond_wait\<close>) and the next call of
  \<open>qemu_mutex_unlock\<close>. The other points are the statements of the source, one for each
  access to the shared objects. \<open>qemu_cond_wait\<close> calls \<open>qemu_mutex_unlock\<close> and
  \<open>qemu_mutex_lock\<close>: their points carry the caller (\<open>Top\<close> or \<open>InWait\<close>).
  The steps of the threads interleave, and every step sees the memory as the steps
  before it left it.
\<close>

datatype ctx = Top | InWait

datatype pc =
    Idle | Crit
  | L_assert ctx | L_inc ctx | L_sem ctx | L_wait ctx | L_own ctx
  | T_assert bool | T_cas bool | T_own
  | U_assert ctx | U_clear ctx | U_dec ctx | U_sem ctx | U_rel ctx
  | CW_inc | CW_store long | CW_wait | CW_dec | CW_cmp long | CW_set
  | CS_assert | CS_chk | CS_target | CS_sig | CS_wait
  | CB_assert | CB_chk | CB_target | CB_rel | CB_wait

datatype 'a outcome = Next 'a | Blocked | Abort error

text \<open>Where \<open>qemu_mutex_unlock\<close> returns to.\<close>

fun unlock_ret :: "ctx \<Rightarrow> pc" where
  "unlock_ret Top = Idle"
| "unlock_ret InWait = CW_wait"

text \<open>
  \<open>qemu_mutex_semaphore\<close>: creates the semaphore (with no unit) when the handle is NULL,
  by a compare-and-swap of the handle; the step is that compare-and-swap.
\<close>

definition qemu_mutex_semaphore :: "QemuMutex \<Rightarrow> QemuMutex" where
  "qemu_mutex_semaphore m = (case m_sema m of None \<Rightarrow> m\<lparr>m_sema := Some 0\<rparr> | Some u \<Rightarrow> m)"

text \<open>
  One step of thread \<open>self\<close> at a program point. In \<open>qemu_cond_wait\<close> the statement
  \<open>cond->waiters++\<close> is a plain read (\<open>CW_inc\<close>, which keeps the value to store) and a
  plain write (\<open>CW_store\<close>), and the condition
  \<open>InterlockedDecrement(&cond->waiters) == cond->target\<close> is two accesses: the atomic
  decrement (\<open>CW_dec\<close>), whose result the thread keeps, and the read of \<open>target\<close>
  (\<open>CW_cmp\<close>). \<open>SignalObjectAndWait\<close> is the release (\<open>CS_sig\<close>) and the wait
  (\<open>CS_wait\<close>); a failed release is its \<open>WAIT_FAILED\<close>.
\<close>

fun exec :: "tid \<Rightarrow> pc \<Rightarrow> QemuMutex \<Rightarrow> QemuCond \<Rightarrow> (pc \<times> QemuMutex \<times> QemuCond) outcome" where
  "exec self Idle m c = Blocked"
| "exec self Crit m c = Blocked"
  \<comment> \<open>\<open>qemu_mutex_lock\<close>\<close>
| "exec self (L_assert x) m c =
     (if m_owner m = self then Abort AssertFailed else Next (L_inc x, m, c))"
| "exec self (L_inc x) m c =
     (let n = m_count m + 1
      in Next (if n \<noteq> 1 then L_sem x else L_own x, m\<lparr>m_count := n\<rparr>, c))"
| "exec self (L_sem x) m c = Next (L_wait x, qemu_mutex_semaphore m, c)"
| "exec self (L_wait x) m c =
     (case m_sema m of
        None \<Rightarrow> Blocked
      | Some u \<Rightarrow> (case WaitForSemaphore u of
                    None \<Rightarrow> Blocked
                  | Some u' \<Rightarrow> Next (L_own x, m\<lparr>m_sema := Some u'\<rparr>, c)))"
| "exec self (L_own x) m c = Next (Crit, m\<lparr>m_owner := self\<rparr>, c)"
  \<comment> \<open>\<open>qemu_mutex_trylock\<close>\<close>
| "exec self (T_assert b) m c =
     (if m_owner m = self then Abort AssertFailed else Next (T_cas b, m, c))"
| "exec self (T_cas b) m c =
     (case InterlockedCompareExchange (m_count m) 1 0 of
        (n, old) \<Rightarrow>
          Next (if old = 0 then T_own else if b then Crit else Idle, m\<lparr>m_count := n\<rparr>, c))"
| "exec self T_own m c = Next (Crit, m\<lparr>m_owner := self\<rparr>, c)"
  \<comment> \<open>\<open>qemu_mutex_unlock\<close>\<close>
| "exec self (U_assert x) m c =
     (if m_owner m \<noteq> self then Abort AssertFailed else Next (U_clear x, m, c))"
| "exec self (U_clear x) m c = Next (U_dec x, m\<lparr>m_owner := 0\<rparr>, c)"
| "exec self (U_dec x) m c =
     (let n = m_count m - 1
      in Next (if n \<noteq> 0 then U_sem x else unlock_ret x, m\<lparr>m_count := n\<rparr>, c))"
| "exec self (U_sem x) m c = Next (U_rel x, qemu_mutex_semaphore m, c)"
| "exec self (U_rel x) m c =
     (case m_sema m of
        None \<Rightarrow> Next (unlock_ret x, m, c)
      | Some u \<Rightarrow> (case ReleaseSemaphore u 1 of
                    None \<Rightarrow> Next (unlock_ret x, m, c)
                  | Some u' \<Rightarrow> Next (unlock_ret x, m\<lparr>m_sema := Some u'\<rparr>, c)))"
  \<comment> \<open>\<open>qemu_cond_wait\<close>\<close>
| "exec self CW_inc m c = Next (CW_store (c_waiters c + 1), m, c)"
| "exec self (CW_store n) m c = Next (U_assert InWait, m, c\<lparr>c_waiters := n\<rparr>)"
| "exec self CW_wait m c =
     (case WaitForSemaphore (c_sema c) of
        None \<Rightarrow> Blocked
      | Some u' \<Rightarrow> Next (CW_dec, m, c\<lparr>c_sema := u'\<rparr>))"
| "exec self CW_dec m c =
     (let n = c_waiters c - 1 in Next (CW_cmp n, m, c\<lparr>c_waiters := n\<rparr>))"
| "exec self (CW_cmp n) m c =
     Next (if n = c_target c then CW_set else L_assert InWait, m, c)"
| "exec self CW_set m c = Next (L_assert InWait, m, c\<lparr>c_event := True\<rparr>)"
  \<comment> \<open>\<open>qemu_cond_signal\<close>\<close>
| "exec self CS_assert m c =
     (if m_owner m \<noteq> self then Abort AssertFailed else Next (CS_chk, m, c))"
| "exec self CS_chk m c = Next (if c_waiters c = 0 then Crit else CS_target, m, c)"
| "exec self CS_target m c = Next (CS_sig, m, c\<lparr>c_target := c_waiters c - 1\<rparr>)"
| "exec self CS_sig m c =
     (case ReleaseSemaphore (c_sema c) 1 of
        None \<Rightarrow> Abort ErrorExit
      | Some u' \<Rightarrow> Next (CS_wait, m, c\<lparr>c_sema := u'\<rparr>))"
| "exec self CS_wait m c =
     (if c_event c then Next (Crit, m, c\<lparr>c_event := False\<rparr>) else Blocked)"
  \<comment> \<open>\<open>qemu_cond_broadcast\<close>\<close>
| "exec self CB_assert m c =
     (if m_owner m \<noteq> self then Abort AssertFailed else Next (CB_chk, m, c))"
| "exec self CB_chk m c = Next (if c_waiters c = 0 then Crit else CB_target, m, c)"
| "exec self CB_target m c = Next (CB_rel, m, c\<lparr>c_target := 0\<rparr>)"
| "exec self CB_rel m c =
     (case ReleaseSemaphore (c_sema c) (c_waiters c) of
        None \<Rightarrow> Abort ErrorExit
      | Some u' \<Rightarrow> Next (CB_wait, m, c\<lparr>c_sema := u'\<rparr>))"
| "exec self CB_wait m c =
     (if c_event c then Next (Crit, m, c\<lparr>c_event := False\<rparr>) else Blocked)"

subsection \<open>Interleavings\<close>

record state =
  mutex :: QemuMutex
  cond :: QemuCond
  pcs :: "tid \<Rightarrow> pc"

datatype call = Lock | Trylock | Unlock | Wait | Signal | Broadcast

datatype event = Call tid call | Step tid

fun entry :: "pc \<Rightarrow> call \<Rightarrow> pc" where
  "entry p Lock = L_assert Top"
| "entry p Trylock = T_assert (p = Crit)"
| "entry p Unlock = U_assert Top"
| "entry p Wait = CW_inc"
| "entry p Signal = CS_assert"
| "entry p Broadcast = CB_assert"

fun who :: "event \<Rightarrow> tid" where
  "who (Call t f) = t"
| "who (Step t) = t"

text \<open>
  An event is a thread entering a function (from \<open>Idle\<close> or \<open>Crit\<close> only) or taking its
  next step. An event that cannot happen in a state (a call inside a call, a step of a
  thread that waits on an object with nothing to take) leaves the state as it is.
\<close>

fun fire :: "event \<Rightarrow> state \<Rightarrow> state outcome" where
  "fire (Call t f) s =
     (if pcs s t = Idle \<or> pcs s t = Crit
      then Next (s\<lparr>pcs := (pcs s)(t := entry (pcs s t) f)\<rparr>)
      else Blocked)"
| "fire (Step t) s =
     (case exec t (pcs s t) (mutex s) (cond s) of
        Next (p, m, c) \<Rightarrow> Next (s\<lparr>mutex := m, cond := c, pcs := (pcs s)(t := p)\<rparr>)
      | Blocked \<Rightarrow> Blocked
      | Abort e \<Rightarrow> Abort e)"

text \<open>A failed assertion and \<open>error_exit\<close> abort the process: the run ends there.\<close>

fun run :: "event list \<Rightarrow> state \<Rightarrow> error + state" where
  "run [] s = Inr s"
| "run (e # es) s =
     (case fire e s of
        Next s' \<Rightarrow> run es s'
      | Blocked \<Rightarrow> run es s
      | Abort err \<Rightarrow> Inl err)"

text \<open>
  The state after \<open>qemu_mutex_init\<close> and \<open>qemu_cond_init\<close> on memory that held \<open>m0\<close> and
  \<open>c0\<close>, with every thread outside the functions. \<open>zeroed_mutex\<close> and \<open>zeroed_cond\<close> are
  memory filled with zeros.
\<close>

definition init :: "QemuMutex \<Rightarrow> QemuCond \<Rightarrow> state" where
  "init m0 c0 = \<lparr>mutex = qemu_mutex_init m0, cond = qemu_cond_init c0, pcs = (\<lambda>t. Idle)\<rparr>"

definition zeroed_mutex :: QemuMutex where
  "zeroed_mutex = \<lparr>m_count = 0, m_sema = None, m_owner = 0\<rparr>"

definition zeroed_cond :: QemuCond where
  "zeroed_cond = \<lparr>c_waiters = 0, c_target = 0, c_sema = 0, c_event = False\<rparr>"

section \<open>The invariant of the mutex\<close>

text \<open>
  What a program point says about the thread's part in \<open>count\<close> and in the semaphore:
  \<open>Queued\<close>, it has incremented \<open>count\<close> to a value other than 1 and not yet taken a
  unit; \<open>Holding\<close>, it has acquired the mutex and \<open>owner\<close> does not record it (not yet,
  or no longer) while \<open>count\<close> still counts it; \<open>Releasing\<close>, its decrement left
  \<open>count\<close> non-zero and it has not yet released the unit.
\<close>

datatype phase = Outside | Queued | Holding | Releasing

fun phase_of :: "pc \<Rightarrow> phase" where
  "phase_of (L_sem x) = Queued"
| "phase_of (L_wait x) = Queued"
| "phase_of (L_own x) = Holding"
| "phase_of T_own = Holding"
| "phase_of (U_dec x) = Holding"
| "phase_of (U_sem x) = Releasing"
| "phase_of (U_rel x) = Releasing"
| "phase_of p = Outside"

definition num :: "phase \<Rightarrow> (tid \<Rightarrow> pc) \<Rightarrow> nat" where
  "num ph f = (\<Sum>t\<in>UNIV. if phase_of (f t) = ph then 1 else 0)"

definition tokens :: "QemuMutex \<Rightarrow> nat" where
  "tokens m = (case m_sema m of None \<Rightarrow> 0 | Some u \<Rightarrow> u)"

definition owned :: "QemuMutex \<Rightarrow> nat" where
  "owned m = (if m_owner m = 0 then 0 else 1)"

fun may_own :: "pc \<Rightarrow> bool" where
  "may_own Crit = True"
| "may_own (L_assert x) = True"
| "may_own (T_assert b) = b"
| "may_own (U_assert x) = True"
| "may_own (U_clear x) = True"
| "may_own CW_inc = True"
| "may_own (CW_store n) = True"
| "may_own CS_assert = True"
| "may_own CS_chk = True"
| "may_own CS_target = True"
| "may_own CS_sig = True"
| "may_own CS_wait = True"
| "may_own CB_assert = True"
| "may_own CB_chk = True"
| "may_own CB_target = True"
| "may_own CB_rel = True"
| "may_own CB_wait = True"
| "may_own p = False"

fun must_own :: "pc \<Rightarrow> bool" where
  "must_own Crit = True"
| "must_own (T_assert b) = b"
| "must_own (U_clear x) = True"
| "must_own CS_chk = True"
| "must_own CS_target = True"
| "must_own CS_sig = True"
| "must_own CS_wait = True"
| "must_own CB_chk = True"
| "must_own CB_target = True"
| "must_own CB_rel = True"
| "must_own CB_wait = True"
| "must_own p = False"

fun needs_sema :: "pc \<Rightarrow> bool" where
  "needs_sema (L_wait x) = True"
| "needs_sema (U_rel x) = True"
| "needs_sema p = False"

definition minv :: "QemuMutex \<Rightarrow> (tid \<Rightarrow> pc) \<Rightarrow> bool" where
  "minv m f \<longleftrightarrow>
     unat (m_count m) = num Queued f + num Holding f + owned m \<and>
     num Holding f + owned m + tokens m + num Releasing f
       = (if m_count m = 0 then 0 else 1) \<and>
     (\<forall>t. m_owner m = t \<and> t \<noteq> 0 \<longrightarrow> may_own (f t)) \<and>
     (\<forall>t. must_own (f t) \<longrightarrow> m_owner m = t) \<and>
     (\<forall>t. f t \<noteq> T_cas True) \<and>
     f 0 = Idle \<and>
     (\<forall>t. needs_sema (f t) \<longrightarrow> m_sema m \<noteq> None)"

definition mutex_inv :: "state \<Rightarrow> bool" where
  "mutex_inv s \<longleftrightarrow> minv (mutex s) (pcs s)"

fun acquired :: "pc \<Rightarrow> bool" where
  "acquired (L_own x) = True"
| "acquired T_own = True"
| "acquired Crit = True"
| "acquired (U_clear x) = True"
| "acquired (U_dec x) = True"
| "acquired CS_chk = True"
| "acquired CS_target = True"
| "acquired CS_sig = True"
| "acquired CS_wait = True"
| "acquired CB_chk = True"
| "acquired CB_target = True"
| "acquired CB_rel = True"
| "acquired CB_wait = True"
| "acquired p = False"

definition owns :: "state \<Rightarrow> tid \<Rightarrow> bool" where
  "owns s t \<longleftrightarrow> acquired (pcs s t) \<or> (t \<noteq> 0 \<and> m_owner (mutex s) = t)"

text \<open>The number of threads at program points with a property.\<close>

definition cnt :: "('p \<Rightarrow> bool) \<Rightarrow> (tid \<Rightarrow> 'p) \<Rightarrow> nat" where
  "cnt P f = (\<Sum>t\<in>UNIV. if P (f t) then 1 else 0)"

section \<open>Interleavings of qemu\_cond\_wait with signal and broadcast\<close>

text \<open>
  \<open>lock_free\<close>: a call of \<open>qemu_mutex_lock\<close> on a free mutex; \<open>wait_enter\<close>: a call of
  \<open>qemu_cond_wait\<close> by the only thread \<open>count\<close> counts, up to its wait on the semaphore.

  \<open>stalled_waiter\<close>: threads 1 and 2 wait; thread 3 broadcasts; thread 1 takes its unit
  and decrements \<open>waiters\<close> to 1, and then does not run: it has not yet read \<open>target\<close>.
  Thread 2 decrements to 0 and sets the event, the broadcast returns and thread 3 unlocks.
  Threads 2 and 4 then wait, and thread 3 locks again.
  \<open>early_signal\<close>: thread 3 signals (\<open>target\<close> becomes 1, one unit is released); thread 1
  runs again, reads \<open>target\<close> and sets the event; the signal returns.
  \<open>stale_event\<close>: after that, thread 2 takes the unit of the signal, decrements to 1
  and sets the event, which nobody waits for.
  \<open>early_broadcast\<close>: thread 3 broadcasts for the one waiter left, thread 4.
  \<open>late_waiter\<close>: thread 3 unlocks; thread 1 returns from its first
  \<open>qemu_cond_wait\<close>, calls it again and takes a unit.
\<close>

definition lock_free :: "tid \<Rightarrow> event list" where
  "lock_free t = [Call t Lock, Step t, Step t, Step t]"

definition wait_enter :: "tid \<Rightarrow> event list" where
  "wait_enter t = [Call t Wait, Step t, Step t, Step t, Step t, Step t]"

definition stalled_waiter :: "event list" where
  "stalled_waiter =
     lock_free 1 @ wait_enter 1 @ lock_free 2 @ wait_enter 2 @ lock_free 3 @
     [Call 3 Broadcast, Step 3, Step 3, Step 3, Step 3,
      Step 1, Step 1,
      Step 2, Step 2, Step 2, Step 2, Step 2, Step 2, Step 2,
      Step 3,
      Call 3 Unlock, Step 3, Step 3, Step 3, Step 3, Step 3,
      Step 2, Step 2] @
     wait_enter 2 @ lock_free 4 @ wait_enter 4 @ lock_free 3"

definition early_signal :: "event list" where
  "early_signal = [Call 3 Signal, Step 3, Step 3, Step 3, Step 3, Step 1, Step 1, Step 3]"

definition stale_event :: "event list" where
  "stale_event = stalled_waiter @ early_signal @ [Step 2, Step 2, Step 2, Step 2]"

definition early_broadcast :: "event list" where
  "early_broadcast = [Call 3 Broadcast, Step 3, Step 3, Step 3, Step 3, Step 3]"

definition late_waiter :: "event list" where
  "late_waiter = [Call 3 Unlock, Step 3, Step 3, Step 3, Step 1, Step 1, Step 1] @
     wait_enter 1 @ [Step 1]"


text \<open>
  The same run cut where thread 1 has just decremented. \<open>first_decrement\<close>: up to the
  decrement of thread 1 after the broadcast; \<open>target_rewritten\<close>: the rest of
  \<open>stalled_waiter\<close> and the call of \<open>qemu_cond_signal\<close> by thread 3 up to its wait.
  \<open>lost_decrement\<close>, after \<open>early_signal\<close>: thread 3 calls \<open>qemu_cond_wait\<close> and reads
  \<open>waiters\<close>; thread 2 takes the unit of the signal and decrements; thread 3 stores.
\<close>

definition first_decrement :: "event list" where
  "first_decrement =
     lock_free 1 @ wait_enter 1 @ lock_free 2 @ wait_enter 2 @ lock_free 3 @
     [Call 3 Broadcast, Step 3, Step 3, Step 3, Step 3,
      Step 1, Step 1]"

definition target_rewritten :: "event list" where
  "target_rewritten =
     [Step 2, Step 2, Step 2, Step 2, Step 2, Step 2, Step 2,
      Step 3,
      Call 3 Unlock, Step 3, Step 3, Step 3, Step 3, Step 3,
      Step 2, Step 2] @
     wait_enter 2 @ lock_free 4 @ wait_enter 4 @ lock_free 3 @
     [Call 3 Signal, Step 3, Step 3, Step 3, Step 3]"

definition lost_decrement :: "event list" where
  "lost_decrement = [Call 3 Wait, Step 3, Step 2, Step 2, Step 3]"

section \<open>Interleavings on the mutex alone\<close>

text \<open>
  \<open>stray_unlock\<close>: thread 5, which never locked, calls \<open>qemu_mutex_unlock\<close>; then threads
  1 and 2 call \<open>qemu_mutex_lock\<close>. \<open>owner_5\<close> is memory whose \<open>owner\<close> field holds 5.
  \<open>hand_off\<close>: thread 1 locks, thread 2 calls \<open>qemu_mutex_lock\<close> and reaches its wait on
  the semaphore, thread 1 unlocks.
\<close>

definition stray_unlock :: "event list" where
  "stray_unlock =
     [Call 5 Unlock, Step 5, Step 5, Step 5, Step 5, Step 5,
      Call 1 Lock, Step 1, Step 1, Step 1, Step 1, Step 1,
      Call 2 Lock, Step 2, Step 2, Step 2]"

definition owner_5 :: QemuMutex where
  "owner_5 = \<lparr>m_count = 0, m_sema = None, m_owner = 5\<rparr>"

definition hand_off :: "event list" where
  "hand_off =
     lock_free 1 @ [Call 2 Lock, Step 2, Step 2, Step 2] @
     [Call 1 Unlock, Step 1, Step 1, Step 1, Step 1, Step 1]"

section \<open>Thread descriptors: create, exit, join\<close>

text \<open>
  Modelled from the spec: the declaration of \<open>QemuThread\<close> and the constant
  \<open>QEMU_THREAD_DETACHED\<close> (the header is not among the sources); \<open>QemuThreadData\<close> is
  declared in the source.
  A \<open>void *\<close> value is a number, \<open>NULL\<close> is 0. A \<open>QemuThreadData\<close> lives on the heap,
  at an address; \<open>QemuThread.data\<close> is that address or NULL. \<open>g_malloc\<close> does not
  initialise the block: \<open>qemu_thread_create\<close> writes \<open>mode\<close> and \<open>exited\<close>, and \<open>ret\<close>
  keeps what the memory held (\<open>junk\<close>).
\<close>

datatype thread_mode = QEMU_THREAD_JOINABLE | QEMU_THREAD_DETACHED

record QemuThreadData =
  td_mode :: thread_mode
  td_exited :: bool
  td_ret :: nat

record QemuThread =
  th_data :: "nat option"
  th_tid :: nat

text \<open>
  The new thread runs \<open>win32_start_routine\<close>: \<open>N_start\<close> (a detached thread frees its
  descriptor; the descriptor, or NULL, goes to thread-local storage), \<open>N_entry\<close> (the
  entry routine runs and returns a value), then \<open>qemu_thread_exit\<close> with that value:
  \<open>N_exit\<close> (\<open>data->ret = arg\<close> when the thread-local descriptor is not NULL),
  \<open>N_flag\<close> (\<open>data->exited = true\<close>, inside the descriptor's critical section) and
  \<open>N_end\<close> (\<open>_endthreadex\<close>), after which the thread is \<open>N_terminated\<close>.
  The joining thread runs \<open>qemu_thread_join\<close>: \<open>J_call\<close> (the test of \<open>thread->data\<close>),
  \<open>J_handle\<close> (\<open>qemu_thread_get_handle\<close>: inside the critical section, \<open>OpenThread\<close> when
  \<open>exited\<close> is false), \<open>J_wait\<close> (\<open>WaitForSingleObject\<close> on the handle), \<open>J_ret\<close> (the read
  of \<open>data->ret\<close>, the assertion and \<open>g_free\<close>), and \<open>J_done\<close> with the value returned.
\<close>

datatype new_pc = N_start | N_entry | N_exit nat | N_flag | N_end | N_terminated

datatype join_pc = J_call | J_handle nat | J_wait nat | J_ret nat | J_done nat

record tstate =
  heap :: "nat \<rightharpoonup> QemuThreadData"
  new_thread :: new_pc
  tls :: "nat option"
  joiner :: join_pc

text \<open>
  \<open>qemu_thread_create\<close>, with the address \<open>a\<close> that \<open>g_malloc\<close> returns and the thread
  identifier that \<open>_beginthreadex\<close> stores: the new thread is started on the descriptor,
  and the caller's \<open>QemuThread\<close> refers to it only when the thread is not detached.
\<close>

definition qemu_thread_create :: "nat \<Rightarrow> nat \<Rightarrow> nat \<Rightarrow> thread_mode \<Rightarrow> QemuThread \<times> tstate" where
  "qemu_thread_create a new_tid junk m =
     (\<lparr>th_data = (if m = QEMU_THREAD_DETACHED then None else Some a), th_tid = new_tid\<rparr>,
      \<lparr>heap = [a \<mapsto> \<lparr>td_mode = m, td_exited = False, td_ret = junk\<rparr>],
       new_thread = N_start, tls = None, joiner = J_call\<rparr>)"

text \<open>
  One step of the new thread, started on the descriptor at \<open>a\<close> with entry routine
  \<open>start_routine\<close> and argument \<open>arg\<close>. A descriptor that is no longer on the heap is a use
  after free (\<open>ErrorExit\<close> stands for it).
\<close>

fun new_step :: "(nat \<Rightarrow> nat) \<Rightarrow> nat \<Rightarrow> nat \<Rightarrow> tstate \<Rightarrow> tstate outcome" where
  "new_step start_routine arg a s =
     (case new_thread s of
        N_start \<Rightarrow>
          (case heap s a of
             None \<Rightarrow> Abort ErrorExit
           | Some d \<Rightarrow>
               if td_mode d = QEMU_THREAD_DETACHED
               then Next (s\<lparr>heap := (heap s)(a := None), tls := None, new_thread := N_entry\<rparr>)
               else Next (s\<lparr>tls := Some a, new_thread := N_entry\<rparr>))
      | N_entry \<Rightarrow> Next (s\<lparr>new_thread := N_exit (start_routine arg)\<rparr>)
      | N_exit v \<Rightarrow>
          (case tls s of
             None \<Rightarrow> Next (s\<lparr>new_thread := N_end\<rparr>)
           | Some b \<Rightarrow>
               (case heap s b of
                  None \<Rightarrow> Abort ErrorExit
                | Some d \<Rightarrow>
                    if td_mode d = QEMU_THREAD_DETACHED then Abort AssertFailed
                    else Next (s\<lparr>heap := (heap s)(b \<mapsto> d\<lparr>td_ret := v\<rparr>),
                                 new_thread := N_flag\<rparr>)))
      | N_flag \<Rightarrow>
          (case tls s of
             None \<Rightarrow> Abort ErrorExit
           | Some b \<Rightarrow>
               (case heap s b of
                  None \<Rightarrow> Abort ErrorExit
                | Some d \<Rightarrow> Next (s\<lparr>heap := (heap s)(b \<mapsto> d\<lparr>td_exited := True\<rparr>),
                                    new_thread := N_end\<rparr>)))
      | N_end \<Rightarrow> Next (s\<lparr>new_thread := N_terminated\<rparr>)
      | N_terminated \<Rightarrow> Blocked)"

text \<open>
  One step of \<open>qemu_thread_join\<close> on the \<open>QemuThread\<close> \<open>thr\<close>. \<open>OpenThread\<close> is called
  only while \<open>exited\<close> is false, inside the critical section in which the new thread
  sets \<open>exited\<close>: the thread is then still running, and the handle is taken to be valid.
\<close>

fun join_step :: "QemuThread \<Rightarrow> tstate \<Rightarrow> tstate outcome" where
  "join_step thr s =
     (case joiner s of
        J_call \<Rightarrow>
          (case th_data thr of
             None \<Rightarrow> Next (s\<lparr>joiner := J_done 0\<rparr>)
           | Some b \<Rightarrow> Next (s\<lparr>joiner := J_handle b\<rparr>))
      | J_handle b \<Rightarrow>
          (case heap s b of
             None \<Rightarrow> Abort ErrorExit
           | Some d \<Rightarrow>
               if td_mode d = QEMU_THREAD_DETACHED then Abort AssertFailed
               else if \<not> td_exited d then Next (s\<lparr>joiner := J_wait b\<rparr>)
               else Next (s\<lparr>joiner := J_ret b\<rparr>))
      | J_wait b \<Rightarrow>
          (if new_thread s = N_terminated then Next (s\<lparr>joiner := J_ret b\<rparr>) else Blocked)
      | J_ret b \<Rightarrow>
          (case heap s b of
             None \<Rightarrow> Abort ErrorExit
           | Some d \<Rightarrow>
               if td_mode d = QEMU_THREAD_DETACHED then Abort AssertFailed
               else Next (s\<lparr>heap := (heap s)(b := None), joiner := J_done (td_ret d)\<rparr>))
      | J_done r \<Rightarrow> Blocked)"

datatype actor = New | Joiner

fun trun :: "(nat \<Rightarrow> nat) \<Rightarrow> nat \<Rightarrow> nat \<Rightarrow> QemuThread \<Rightarrow> actor list \<Rightarrow> tstate \<Rightarrow> error + tstate" where
  "trun start_routine arg a thr [] s = Inr s"
| "trun start_routine arg a thr (x # xs) s =
     (case (case x of New \<Rightarrow> new_step start_routine arg a s | Joiner \<Rightarrow> join_step thr s) of
        Next s' \<Rightarrow> trun start_routine arg a thr xs s'
      | Blocked \<Rightarrow> trun start_routine arg a thr xs s
      | Abort e \<Rightarrow> Inl e)"

text \<open>What holds of every state of a joinable thread and its one join.\<close>

definition join_inv :: "(nat \<Rightarrow> nat) \<Rightarrow> nat \<Rightarrow> nat \<Rightarrow> tstate \<Rightarrow> bool" where
  "join_inv start_routine arg a s \<longleftrightarrow>
     (case joiner s of
        J_call \<Rightarrow> True
      | J_handle b \<Rightarrow> b = a
      | J_wait b \<Rightarrow> b = a
      | J_ret b \<Rightarrow> b = a \<and> new_thread s \<in> {N_end, N_terminated}
      | J_done r \<Rightarrow> r = start_routine arg \<and> new_thread s \<in> {N_end, N_terminated}) \<and>
     (case joiner s of
        J_done r \<Rightarrow> heap s a = None
      | _ \<Rightarrow> (\<exists>d. heap s a = Some d \<and> td_mode d = QEMU_THREAD_JOINABLE \<and>
                  (td_exited d \<longrightarrow> new_thread s \<in> {N_end, N_terminated}) \<and>
                  (new_thread s \<in> {N_flag, N_end, N_terminated} \<longrightarrow> td_ret d = start_routine arg))) \<and>
     (new_thread s \<noteq> N_start \<longrightarrow> tls s = Some a) \<and>
     (\<forall>v. new_thread s = N_exit v \<longrightarrow> v = start_routine arg)"

section \<open>The reader-writer lock\<close>

text \<open>
  A Win32 critical section is owned by a thread (0: by none) and counts the owner's
  nested entries. \<open>EnterCriticalSection\<close> does not return while another thread owns it.
  \<open>LeaveCriticalSection\<close> by a thread that does not own it is undefined
  (\<open>ErrorExit\<close> stands for it).
\<close>

record critical_section =
  cs_owner :: tid
  cs_depth :: nat

definition InitializeCriticalSection :: critical_section where
  "InitializeCriticalSection = \<lparr>cs_owner = 0, cs_depth = 0\<rparr>"

definition EnterCriticalSection :: "tid \<Rightarrow> critical_section \<Rightarrow> critical_section option" where
  "EnterCriticalSection self cs =
     (if cs_owner cs = 0 then Some \<lparr>cs_owner = self, cs_depth = 1\<rparr>
      else if cs_owner cs = self then Some (cs\<lparr>cs_depth := cs_depth cs + 1\<rparr>)
      else None)"

definition LeaveCriticalSection :: "tid \<Rightarrow> critical_section \<Rightarrow> critical_section option" where
  "LeaveCriticalSection self cs =
     (if cs_owner cs \<noteq> self \<or> cs_depth cs = 0 then None
      else if cs_depth cs = 1 then Some \<lparr>cs_owner = 0, cs_depth = 0\<rparr>
      else Some (cs\<lparr>cs_depth := cs_depth cs - 1\<rparr>))"

text \<open>
  Modelled from the spec: the declaration of \<open>QemuRWMutex\<close> (the header is not among
  the sources); the fields are those the functions use.
  \<open>QemuRWMutex\<close>: \<open>readerCount\<close> (compared as a signed number), \<open>writer\<close>, the two
  critical sections and the manual-reset event \<open>noReaders\<close> (\<open>True\<close> is signaled).
  \<open>qemu_rwmutex_init\<close> initialises the critical sections and creates the event
  signaled; \<open>readerCount\<close> and \<open>writer\<close> keep what the memory held.
\<close>

record QemuRWMutex =
  readerCount :: long
  writer :: tid
  readerCountLock :: critical_section
  writerLock :: critical_section
  noReaders :: bool

definition qemu_rwmutex_init :: "QemuRWMutex \<Rightarrow> QemuRWMutex" where
  "qemu_rwmutex_init m =
     m\<lparr>readerCountLock := InitializeCriticalSection, writerLock := InitializeCriticalSection,
       noReaders := True\<rparr>"

text \<open>
  The program points. Of the calling code: \<open>Out\<close> (the thread holds nothing), \<open>Rd\<close>
  (\<open>qemu_rwmutex_rdlock\<close> has returned), \<open>Wr\<close> (\<open>qemu_rwmutex_wrlock\<close> has returned).
  Of \<open>qemu_rwmutex_rdlock\<close>: \<open>R_\<close>; of \<open>qemu_rwmutex_wrlock\<close>: \<open>W_\<close>; of
  \<open>qemu_rwmutex_unlock\<close>: \<open>X_\<close>, where \<open>X_chk\<close> remembers whether the caller is a reader.
\<close>

datatype rw_pc =
    Out | Rd | Wr
  | R_assert | R_enterW | R_enterC | R_inc | R_reset | R_leaveC | R_leaveW
  | W_enter | W_chk | W_wait | W_assert | W_set
  | X_chk bool | X_rassert | X_enterC | X_dec | X_set | X_leaveC | X_clear | X_leaveW

fun rw_exec :: "tid \<Rightarrow> rw_pc \<Rightarrow> QemuRWMutex \<Rightarrow> (rw_pc \<times> QemuRWMutex) outcome" where
  "rw_exec self Out m = Blocked"
| "rw_exec self Rd m = Blocked"
| "rw_exec self Wr m = Blocked"
  \<comment> \<open>\<open>qemu_rwmutex_rdlock\<close>\<close>
| "rw_exec self R_assert m =
     (if writer m = self then Abort AssertFailed else Next (R_enterW, m))"
| "rw_exec self R_enterW m =
     (case EnterCriticalSection self (writerLock m) of
        None \<Rightarrow> Blocked
      | Some cs \<Rightarrow> Next (R_enterC, m\<lparr>writerLock := cs\<rparr>))"
| "rw_exec self R_enterC m =
     (case EnterCriticalSection self (readerCountLock m) of
        None \<Rightarrow> Blocked
      | Some cs \<Rightarrow> Next (R_inc, m\<lparr>readerCountLock := cs\<rparr>))"
| "rw_exec self R_inc m =
     (let n = readerCount m + 1
      in Next (if n = 1 then R_reset else R_leaveC, m\<lparr>readerCount := n\<rparr>))"
| "rw_exec self R_reset m = Next (R_leaveC, m\<lparr>noReaders := False\<rparr>)"
| "rw_exec self R_leaveC m =
     (case LeaveCriticalSection self (readerCountLock m) of
        None \<Rightarrow> Abort ErrorExit
      | Some cs \<Rightarrow> Next (R_leaveW, m\<lparr>readerCountLock := cs\<rparr>))"
| "rw_exec self R_leaveW m =
     (case LeaveCriticalSection self (writerLock m) of
        None \<Rightarrow> Abort ErrorExit
      | Some cs \<Rightarrow> Next (Rd, m\<lparr>writerLock := cs\<rparr>))"
  \<comment> \<open>\<open>qemu_rwmutex_wrlock\<close>\<close>
| "rw_exec self W_enter m =
     (case EnterCriticalSection self (writerLock m) of
        None \<Rightarrow> Blocked
      | Some cs \<Rightarrow> Next (W_chk, m\<lparr>writerLock := cs\<rparr>))"
| "rw_exec self W_chk m = Next (if 0 <s readerCount m then W_wait else W_assert, m)"
| "rw_exec self W_wait m = (if noReaders m then Next (W_assert, m) else Blocked)"
| "rw_exec self W_assert m =
     (if writer m \<noteq> 0 then Abort AssertFailed else Next (W_set, m))"
| "rw_exec self W_set m = Next (Wr, m\<lparr>writer := self\<rparr>)"
  \<comment> \<open>\<open>qemu_rwmutex_unlock\<close>\<close>
| "rw_exec self (X_chk r) m = Next (if writer m \<noteq> self then X_rassert else X_clear, m)"
| "rw_exec self X_rassert m =
     (if 0 <s readerCount m then Next (X_enterC, m) else Abort AssertFailed)"
| "rw_exec self X_enterC m =
     (case EnterCriticalSection self (readerCountLock m) of
        None \<Rightarrow> Blocked
      | Some cs \<Rightarrow> Next (X_dec, m\<lparr>readerCountLock := cs\<rparr>))"
| "rw_exec self X_dec m =
     (let n = readerCount m - 1
      in Next (if n = 0 then X_set else X_leaveC, m\<lparr>readerCount := n\<rparr>))"
| "rw_exec self X_set m = Next (X_leaveC, m\<lparr>noReaders := True\<rparr>)"
| "rw_exec self X_leaveC m =
     (case LeaveCriticalSection self (readerCountLock m) of
        None \<Rightarrow> Abort ErrorExit
      | Some cs \<Rightarrow> Next (Out, m\<lparr>readerCountLock := cs\<rparr>))"
| "rw_exec self X_clear m = Next (X_leaveW, m\<lparr>writer := 0\<rparr>)"
| "rw_exec self X_leaveW m =
     (case LeaveCriticalSection self (writerLock m) of
        None \<Rightarrow> Abort ErrorExit
      | Some cs \<Rightarrow> Next (Out, m\<lparr>writerLock := cs\<rparr>))"

record rw_state =
  rw :: QemuRWMutex
  rpcs :: "tid \<Rightarrow> rw_pc"

datatype rw_call = Rdlock | Wrlock | RwUnlock

datatype rw_event = RCall tid rw_call | RStep tid

fun rw_who :: "rw_event \<Rightarrow> tid" where
  "rw_who (RCall t f) = t"
| "rw_who (RStep t) = t"

text \<open>
  The callers keep the contract: a thread takes the lock only when it holds nothing, and
  calls \<open>qemu_rwmutex_unlock\<close> only when it holds the lock, as a reader or as the writer.
\<close>

fun rw_entry :: "rw_pc \<Rightarrow> rw_call \<Rightarrow> rw_pc option" where
  "rw_entry Out Rdlock = Some R_assert"
| "rw_entry Out Wrlock = Some W_enter"
| "rw_entry Rd RwUnlock = Some (X_chk True)"
| "rw_entry Wr RwUnlock = Some (X_chk False)"
| "rw_entry p f = None"

fun rw_fire :: "rw_event \<Rightarrow> rw_state \<Rightarrow> rw_state outcome" where
  "rw_fire (RCall t f) s =
     (case rw_entry (rpcs s t) f of
        None \<Rightarrow> Blocked
      | Some p \<Rightarrow> Next (s\<lparr>rpcs := (rpcs s)(t := p)\<rparr>))"
| "rw_fire (RStep t) s =
     (case rw_exec t (rpcs s t) (rw s) of
        Next (p, m) \<Rightarrow> Next (s\<lparr>rw := m, rpcs := (rpcs s)(t := p)\<rparr>)
      | Blocked \<Rightarrow> Blocked
      | Abort e \<Rightarrow> Abort e)"

fun rw_run :: "rw_event list \<Rightarrow> rw_state \<Rightarrow> error + rw_state" where
  "rw_run [] s = Inr s"
| "rw_run (e # es) s =
     (case rw_fire e s of
        Next s' \<Rightarrow> rw_run es s'
      | Blocked \<Rightarrow> rw_run es s
      | Abort err \<Rightarrow> Inl err)"

text \<open>
  The state after \<open>qemu_rwmutex_init\<close> on memory that held \<open>m0\<close>, with every thread
  holding nothing. \<open>zeroed_rwmutex\<close> is memory filled with zeros; \<open>stale_rwmutex\<close> is
  memory that holds 3 where \<open>readerCount\<close> is and 7 where \<open>writer\<close> is.
\<close>

definition rw_init :: "QemuRWMutex \<Rightarrow> rw_state" where
  "rw_init m0 = \<lparr>rw = qemu_rwmutex_init m0, rpcs = (\<lambda>t. Out)\<rparr>"

definition stale_rwmutex :: QemuRWMutex where
  "stale_rwmutex =
     \<lparr>readerCount = 3, writer = 7,
      readerCountLock = \<lparr>cs_owner = 0, cs_depth = 0\<rparr>,
      writerLock = \<lparr>cs_owner = 0, cs_depth = 0\<rparr>, noReaders = False\<rparr>"

definition zeroed_rwmutex :: QemuRWMutex where
  "zeroed_rwmutex =
     \<lparr>readerCount = 0, writer = 0,
      readerCountLock = \<lparr>cs_owner = 0, cs_depth = 0\<rparr>,
      writerLock = \<lparr>cs_owner = 0, cs_depth = 0\<rparr>, noReaders = False\<rparr>"

text \<open>
  For the invariant: the points at which \<open>readerCount\<close> counts the thread, those inside
  each critical section, and those at which the thread holds the lock as the writer.
\<close>

fun counted_reader :: "rw_pc \<Rightarrow> bool" where
  "counted_reader R_reset = True"
| "counted_reader R_leaveC = True"
| "counted_reader R_leaveW = True"
| "counted_reader Rd = True"
| "counted_reader (X_chk r) = r"
| "counted_reader X_rassert = True"
| "counted_reader X_enterC = True"
| "counted_reader X_dec = True"
| "counted_reader p = False"

fun in_count_guard :: "rw_pc \<Rightarrow> bool" where
  "in_count_guard R_inc = True"
| "in_count_guard R_reset = True"
| "in_count_guard R_leaveC = True"
| "in_count_guard X_dec = True"
| "in_count_guard X_set = True"
| "in_count_guard X_leaveC = True"
| "in_count_guard p = False"

fun in_writer_guard :: "rw_pc \<Rightarrow> bool" where
  "in_writer_guard R_enterC = True"
| "in_writer_guard R_inc = True"
| "in_writer_guard R_reset = True"
| "in_writer_guard R_leaveC = True"
| "in_writer_guard R_leaveW = True"
| "in_writer_guard W_chk = True"
| "in_writer_guard W_wait = True"
| "in_writer_guard W_assert = True"
| "in_writer_guard W_set = True"
| "in_writer_guard Wr = True"
| "in_writer_guard (X_chk r) = (\<not> r)"
| "in_writer_guard X_clear = True"
| "in_writer_guard X_leaveW = True"
| "in_writer_guard p = False"

fun holds_write :: "rw_pc \<Rightarrow> bool" where
  "holds_write Wr = True"
| "holds_write (X_chk r) = (\<not> r)"
| "holds_write X_clear = True"
| "holds_write p = False"

definition guard_inv :: "critical_section \<Rightarrow> (rw_pc \<Rightarrow> bool) \<Rightarrow> (tid \<Rightarrow> rw_pc) \<Rightarrow> bool" where
  "guard_inv cs inside f \<longleftrightarrow>
     (\<forall>t. inside (f t) \<longrightarrow> cs_owner cs = t \<and> cs_depth cs = 1) \<and>
     (cs_owner cs \<noteq> 0 \<longrightarrow> inside (f (cs_owner cs))) \<and>
     (cs_owner cs = 0 \<longrightarrow> cs_depth cs = 0)"

definition rinv :: "QemuRWMutex \<Rightarrow> (tid \<Rightarrow> rw_pc) \<Rightarrow> bool" where
  "rinv m f \<longleftrightarrow>
     f 0 = Out \<and>
     unat (readerCount m) = cnt counted_reader f \<and>
     guard_inv (readerCountLock m) in_count_guard f \<and>
     guard_inv (writerLock m) in_writer_guard f \<and>
     (\<forall>t. holds_write (f t) \<longrightarrow> writer m = t) \<and>
     (writer m \<noteq> 0 \<longrightarrow> holds_write (f (writer m))) \<and>
     ((\<forall>t. f t \<noteq> R_reset) \<longrightarrow> readerCount m \<noteq> 0 \<longrightarrow> \<not> noReaders m) \<and>
     (\<forall>t. f t = X_set \<longrightarrow> readerCount m = 0) \<and>
     (\<forall>t. f t = R_reset \<longrightarrow> readerCount m = 1)"

definition rw_inv :: "rw_state \<Rightarrow> bool" where
  "rw_inv s \<longleftrightarrow> rinv (rw s) (rpcs s)"

section \<open>Theorems\<close>

subsection \<open>qemu\_mutex\_destroy and the value qemu\_mutex\_trylock returns\<close>

text \<open>
  C8, as the code has it. \<open>qemu_mutex_destroy\<close> asserts that \<open>count\<close> is 0 and that
  \<open>owner\<close> is 0: it succeeds exactly on a mutex that nobody holds and nobody owns, and
  the identity of the caller plays no part. When it succeeds it closes the handle of
  the semaphore, if there is one, and leaves every field of the mutex as it was.
\<close>

theorem destroy_asserts_unheld_unowned:
  "qemu_mutex_destroy m =
     (if m_count m = 0 \<and> m_owner m = 0 then Inr (m_sema m \<noteq> None, m) else Inl AssertFailed)"
  by (simp add: qemu_mutex_destroy_def)

text \<open>
  C8, as stated, fails: thread 5 is not the owner of an unheld mutex (there is none), and
  destroying it fires no assertion; thread 5 is the owner of a mutex it holds, and
  destroying it fires the assertion.
\<close>

theorem destroy_by_owner_counterexample:
  "qemu_mutex_destroy \<lparr>m_count = 0, m_sema = None, m_owner = 0\<rparr>
     = Inr (False, \<lparr>m_count = 0, m_sema = None, m_owner = 0\<rparr>) \<and>
   m_owner \<lparr>m_count = 0, m_sema = None, m_owner = 0\<rparr> \<noteq> (5 :: tid) \<and>
   qemu_mutex_destroy \<lparr>m_count = 1, m_sema = None, m_owner = 5\<rparr> = Inl AssertFailed \<and>
   m_owner \<lparr>m_count = 1, m_sema = None, m_owner = 5\<rparr> = (5 :: tid)"
  by (simp add: qemu_mutex_destroy_def)

text \<open>
  C10. On both backends \<open>qemu_mutex_trylock\<close> returns false (0) exactly when it acquired
  the lock, and true (non-zero, 1 on posix) when the lock was already held.
\<close>

theorem trylock_returns_false_on_success:
  "(qemu_mutex_trylock self m = Inr (r, m') \<longrightarrow>
      (r = False \<longleftrightarrow> m_count m = 0) \<and>
      (r = False \<longrightarrow> m_count m' = 1 \<and> m_owner m' = self) \<and>
      (r = True \<longrightarrow> m' = m)) \<and>
   fst (posix_qemu_mutex_trylock t p) = (if p_locked p then 1 else 0) \<and>
   (fst (posix_qemu_mutex_trylock t p) = 0 \<longrightarrow>
      snd (posix_qemu_mutex_trylock t p) = p\<lparr>p_locked := True, p_owner := Some t\<rparr>) \<and>
   (fst (posix_qemu_mutex_trylock t p) \<noteq> 0 \<longrightarrow> snd (posix_qemu_mutex_trylock t p) = p)"
  by (auto simp: qemu_mutex_trylock_def InterlockedCompareExchange_def posix_qemu_mutex_trylock_def
      pthread_mutex_trylock_def lnot_def EBUSY_def split: if_splits)

theorem trylock_returns_false_on_success_witness:
  "qemu_mutex_trylock 7 \<lparr>m_count = 0, m_sema = None, m_owner = 0\<rparr>
     = Inr (False, \<lparr>m_count = 1, m_sema = None, m_owner = 7\<rparr>) \<and>
   qemu_mutex_trylock 7 \<lparr>m_count = 1, m_sema = None, m_owner = 3\<rparr>
     = Inr (True, \<lparr>m_count = 1, m_sema = None, m_owner = 3\<rparr>) \<and>
   fst (posix_qemu_mutex_trylock 7 \<lparr>p_locked = False, p_owner = None\<rparr>) = 0 \<and>
   snd (posix_qemu_mutex_trylock 7 \<lparr>p_locked = False, p_owner = None\<rparr>)
     = \<lparr>p_locked = True, p_owner = Some 7\<rparr> \<and>
   fst (posix_qemu_mutex_trylock 7 \<lparr>p_locked = True, p_owner = Some 3\<rparr>) = 1"
  using trylock_returns_false_on_success
          [of 7 "\<lparr>m_count = 0, m_sema = None, m_owner = 0\<rparr>" False
              "\<lparr>m_count = 1, m_sema = None, m_owner = 7\<rparr>" 7
              "\<lparr>p_locked = False, p_owner = None\<rparr>"]
        trylock_returns_false_on_success
          [of 7 "\<lparr>m_count = 1, m_sema = None, m_owner = 3\<rparr>" True
              "\<lparr>m_count = 1, m_sema = None, m_owner = 3\<rparr>" 7
              "\<lparr>p_locked = True, p_owner = Some 3\<rparr>"]
  by (simp add: qemu_mutex_trylock_def InterlockedCompareExchange_def)

subsection \<open>qemu\_mutex\_lock and qemu\_mutex\_unlock, one call\<close>



subsection \<open>Invariants of the interleaved runs\<close>

lemma num_ge: "phase_of (f t) = ph \<Longrightarrow> 1 \<le> num ph f"
  unfolding num_def
  using member_le_sum [of t UNIV "\<lambda>t. if phase_of (f t) = ph then 1 else (0::nat)"] by simp

lemma num_upd:
  "num ph (f(t := p)) =
     num ph f - (if phase_of (f t) = ph then 1 else 0) + (if phase_of p = ph then 1 else 0)"
proof -
  let ?w = "\<lambda>q. if phase_of q = ph then 1 else (0::nat)"
  have a: "num ph f = ?w (f t) + (\<Sum>u\<in>UNIV - {t}. ?w (f u))"
    unfolding num_def by (rule sum.remove) auto
  have b: "num ph (f(t := p)) = ?w p + (\<Sum>u\<in>UNIV - {t}. ?w ((f(t := p)) u))"
    unfolding num_def using sum.remove [of UNIV t "\<lambda>u. ?w ((f(t := p)) u)"] by simp
  have c: "(\<Sum>u\<in>UNIV - {t}. ?w ((f(t := p)) u)) = (\<Sum>u\<in>UNIV - {t}. ?w (f u))"
    by (rule sum.cong) auto
  show ?thesis using a b c by simp
qed

lemma num_same: "phase_of p = phase_of (f t) \<Longrightarrow> num ph (f(t := p)) = num ph f"
  using num_ge [of f t ph] by (simp add: num_upd)

lemma num_bound:
  assumes "\<forall>u\<in>S. phase_of (f u) = Outside"
  shows "num Queued f + num Holding f + card S \<le> 2 ^ 32"
proof -
  have "num Queued f + num Holding f
          = (\<Sum>t\<in>UNIV. if phase_of (f t) = Queued \<or> phase_of (f t) = Holding then 1 else (0::nat))"
    unfolding num_def sum.distrib [symmetric] by (rule sum.cong) auto
  also have "\<dots> \<le> (\<Sum>t\<in>UNIV. if t \<in> S then 0 else (1::nat))"
    by (rule sum_mono) (use assms in auto)
  also have "\<dots> = card (UNIV - S)"
    by (simp add: sum.If_cases Compl_eq_Diff_UNIV)
  finally have "num Queued f + num Holding f + card S \<le> card (UNIV - S) + card S" by simp
  also have "\<dots> = card (UNIV :: tid set)"
  proof -
    have "(UNIV - S) \<inter> S = {}" by blast
    then show ?thesis
      using card_Un_disjoint [of "UNIV - S" S] by (simp add: Un_commute)
  qed
  finally show ?thesis by (simp add: card_word)
qed

lemma tokens_upd [simp]:
  "tokens (m\<lparr>m_count := n\<rparr>) = tokens m"
  "tokens (m\<lparr>m_owner := w\<rparr>) = tokens m"
  "tokens (m\<lparr>m_sema := Some u\<rparr>) = u"
  by (simp_all add: tokens_def)

lemma owned_upd [simp]:
  "owned (m\<lparr>m_count := n\<rparr>) = owned m"
  "owned (m\<lparr>m_sema := x\<rparr>) = owned m"
  "owned (m\<lparr>m_owner := w\<rparr>) = (if w = 0 then 0 else 1)"
  by (simp_all add: owned_def)

lemma inv_neutral:
  assumes "minv m f" "t \<noteq> 0"
    and "phase_of p' = phase_of (f t)"
    and "m_owner m = t \<longrightarrow> may_own p'"
    and "must_own p' \<longrightarrow> m_owner m = t"
    and "p' \<noteq> T_cas True" "needs_sema p' \<longrightarrow> m_sema m \<noteq> None"
  shows "minv m (f(t := p'))"
  using assms unfolding minv_def
  by (auto simp: num_same)

lemma holding_alone:
  assumes "minv m f" "phase_of (f t) = Holding"
  shows "num Holding f = 1 \<and> m_owner m = 0 \<and> tokens m = 0 \<and>
    num Releasing f = 0 \<and> m_count m \<noteq> 0"
proof -
  have g: "1 \<le> num Holding f" using num_ge [of "f" t Holding] assms(2) by simp
  have e: "num Holding f + owned m + tokens m + num Releasing f
       = (if m_count m = 0 then 0 else 1)"
    using assms(1) unfolding minv_def by simp
  have "owned m = 0" using g e by (auto split: if_splits)
  then have "m_owner m = 0" by (simp add: owned_def split: if_splits)
  then show ?thesis
    using g e by (auto split: if_splits)
qed

lemma inv_set_owner:
  assumes "minv m f" "t \<noteq> 0" "phase_of (f t) = Holding"
  shows "minv (m\<lparr>m_owner := t\<rparr>) (f(t := Crit))"
proof -
  note h = holding_alone [OF assms(1,3)]
  show ?thesis
    using assms h unfolding minv_def
    by (auto simp: num_upd owned_def tokens_def)
qed

lemma inv_U_clear:
  assumes "minv m f" "t \<noteq> 0" "f t = U_clear x"
  shows "minv (m\<lparr>m_owner := 0\<rparr>) (f(t := U_dec x))"
proof -
  have o: "m_owner m = t" using assms unfolding minv_def by auto
  show ?thesis
    using assms o unfolding minv_def
    by (auto simp: num_upd owned_def tokens_def)
qed

lemma inv_sem:
  assumes "minv m f" "t \<noteq> 0" "p' \<noteq> T_cas True"
    "phase_of p' = phase_of (f t)" "\<not> may_own (f t)" "\<not> must_own p'"
  shows "minv (qemu_mutex_semaphore m) (f(t := p'))"
proof -
  have o: "m_owner m \<noteq> t" using assms unfolding minv_def by auto
  have e: "m_owner (qemu_mutex_semaphore m) = m_owner m"
     "m_count (qemu_mutex_semaphore m) = m_count m"
     "tokens (qemu_mutex_semaphore m) = tokens m"
     "owned (qemu_mutex_semaphore m) = owned m"
     "m_sema (qemu_mutex_semaphore m) \<noteq> None"
    by (auto simp: qemu_mutex_semaphore_def tokens_def owned_def split: option.splits)
  show ?thesis
    using assms o unfolding minv_def
    by (auto simp: num_same e)
qed

lemma count_no_wrap:
  assumes "minv m f" "t \<noteq> 0" "phase_of (f t) = Outside" "\<not> may_own (f t)"
  shows "unat (m_count m) + 2 \<le> 2 ^ 32"
proof (cases "m_owner m = 0")
  case True
  have "\<forall>u\<in>{0, t}. phase_of (f u) = Outside"
    using assms unfolding minv_def by auto
  from num_bound [OF this] assms(1,2) True show ?thesis
    unfolding minv_def owned_def by simp
next
  case False
  have o: "may_own (f (m_owner m))" using False assms(1) unfolding minv_def by auto
  then have d: "m_owner m \<noteq> t" using assms(4) by auto
  have "phase_of (f (m_owner m)) = Outside" using o
    by (cases "f (m_owner m)") auto
  then have "\<forall>u\<in>{0, t, m_owner m}. phase_of (f u) = Outside"
    using assms unfolding minv_def by auto
  from num_bound [OF this] assms(1,2) False d show ?thesis
    unfolding minv_def owned_def by simp
qed

lemma inv_L_inc:
  assumes "minv m f" "t \<noteq> 0" "f t = L_inc x" "n = m_count m + 1"
  shows "minv (m\<lparr>m_count := n\<rparr>) (f(t := if n \<noteq> 1 then L_sem x else L_own x))"
proof -
  have b: "unat (m_count m) + 2 \<le> 2 ^ 32"
    using count_no_wrap [OF assms(1,2)] assms(3) by simp
  have u: "unat n = unat (m_count m) + 1"
    unfolding assms(4) using b by (simp add: unat_word_ariths)
  have z: "n \<noteq> 0" using u by (metis add_is_0 unat_0 zero_neq_one)
  have e: "n = 1 \<longleftrightarrow> m_count m = 0" unfolding assms(4) by simp
  have o: "m_owner m \<noteq> t" using assms unfolding minv_def by auto
  show ?thesis
  proof (cases "m_count m = 0")
    case True
    then show ?thesis
      using assms(1,2,3) u z e o unfolding minv_def
      by (auto simp: num_upd owned_def tokens_def split: if_splits)
  next
    case False
    then show ?thesis
      using assms(1,2,3) u z e o unfolding minv_def
      by (auto simp: num_upd owned_def tokens_def split: if_splits)
  qed
qed

lemma inv_L_wait:
  assumes "minv m f" "t \<noteq> 0" "f t = L_wait x" "m_sema m = Some (Suc u)"
  shows "minv (m\<lparr>m_sema := Some u\<rparr>) (f(t := L_own x))"
proof -
  have q: "1 \<le> num Queued f" using num_ge [of "f" t Queued] assms(3) by simp
  have o: "m_owner m \<noteq> t" using assms unfolding minv_def by auto
  show ?thesis
    using assms q o unfolding minv_def
    by (auto simp: num_upd owned_def tokens_def split: if_splits)
qed

lemma inv_T_cas:
  assumes "minv m f" "t \<noteq> 0" "f t = T_cas b"
  shows "minv (m\<lparr>m_count := (if m_count m = 0 then 1 else m_count m)\<rparr>)
               (f(t := if m_count m = 0 then T_own else if b then Crit else Idle))"
proof -
  have b: "\<not> b" using assms unfolding minv_def by auto
  have o: "m_owner m \<noteq> t" using assms unfolding minv_def by auto
  show ?thesis
    using assms(1,2,3) b o unfolding minv_def
    by (auto simp: num_upd owned_def tokens_def split: if_splits)
qed

lemma inv_U_dec:
  assumes "minv m f" "t \<noteq> 0" "f t = U_dec x" "n = m_count m - 1"
  shows "minv (m\<lparr>m_count := n\<rparr>) (f(t := if n \<noteq> 0 then U_sem x else unlock_ret x))"
proof -
  have h: "num Holding f = 1 \<and> m_owner m = 0 \<and> tokens m = 0 \<and>
    num Releasing f = 0 \<and> m_count m \<noteq> 0"
    using holding_alone [OF assms(1), of t] assms(3) by simp
  have u: "unat n = unat (m_count m) - 1"
    unfolding assms(4) using h by (simp add: unat_minus_one)
  have z: "n = 0 \<longleftrightarrow> unat n = 0" by (simp add: unat_eq_0)
  have r: "phase_of (unlock_ret x) = Outside" "\<not> must_own (unlock_ret x)"
    "\<not> needs_sema (unlock_ret x)" "unlock_ret x \<noteq> T_cas True"
    by (cases x; simp)+
  show ?thesis
    using assms(1,2,3) h u z r unfolding minv_def
    by (auto simp: num_upd owned_def split: if_splits)
qed

lemma inv_U_rel:
  assumes "minv m f" "t \<noteq> 0" "f t = U_rel x"
  shows "\<exists>u. m_sema m = Some u \<and> ReleaseSemaphore u 1 = Some (Suc u) \<and>
     minv (m\<lparr>m_sema := Some (Suc u)\<rparr>) (f(t := unlock_ret x))"
proof -
  have q: "1 \<le> num Releasing f" using num_ge [of "f" t Releasing] assms(3) by simp
  have e: "num Holding f + owned m + tokens m + num Releasing f
       = (if m_count m = 0 then 0 else 1)"
    using assms(1) unfolding minv_def by simp
  have k: "tokens m = 0" "owned m = 0" "num Holding f = 0"
    "num Releasing f = 1" "m_count m \<noteq> 0"
    using q e by (auto split: if_splits)
  have "needs_sema (f t)" using assms(3) by simp
  then have "m_sema m \<noteq> None" using assms(1) unfolding minv_def by blast
  then have sm: "m_sema m = Some 0" using k(1) by (auto simp: tokens_def)
  have rs: "ReleaseSemaphore 0 1 = Some (Suc 0)" by (simp add: ReleaseSemaphore_def LONG_MAX_def)
  have r: "phase_of (unlock_ret x) = Outside" "\<not> must_own (unlock_ret x)"
    "\<not> needs_sema (unlock_ret x)" "unlock_ret x \<noteq> T_cas True"
    by (cases x; simp)+
  have o: "m_owner m = 0" using k(2) by (simp add: owned_def split: if_splits)
  have "minv (m\<lparr>m_sema := Some (Suc 0)\<rparr>) (f(t := unlock_ret x))"
    using assms k r o unfolding minv_def
    by (auto simp: num_upd owned_def tokens_def)
  then show ?thesis using sm rs by simp
qed

lemma inv_step:
  assumes i0: "mutex_inv s" and t: "t \<noteq> 0" and f: "fire (Step t) s = Next s'"
  shows "mutex_inv s'"
proof -
  have i: "minv (mutex s) (pcs s)" using i0 by (simp add: mutex_inv_def)
  have own: "must_own (pcs s t) \<Longrightarrow> m_owner (mutex s) = t"
    using i unfolding minv_def by blast
  have nown: "\<not> may_own (pcs s t) \<Longrightarrow> m_owner (mutex s) \<noteq> t"
    using i t unfolding minv_def by blast
  note n = inv_neutral [OF i t]
  show ?thesis
  proof (cases "pcs s t")
    case Idle then show ?thesis unfolding mutex_inv_def using f by simp
  next
    case Crit then show ?thesis unfolding mutex_inv_def using f by simp
  next
    case (L_assert x) then show ?thesis unfolding mutex_inv_def using f n [of "L_inc x"] by (auto split: if_splits)
  next
    case (L_inc x)
    then show ?thesis unfolding mutex_inv_def using f inv_L_inc [OF i t L_inc refl] by (auto simp: Let_def)
  next
    case (L_sem x)
    then show ?thesis unfolding mutex_inv_def using f inv_sem [OF i t, of "L_wait x"] by auto
  next
    case (L_wait x)
    show ?thesis
    proof (cases "m_sema (mutex s)")
      case None then show ?thesis unfolding mutex_inv_def using f L_wait by simp
    next
      case (Some u)
      show ?thesis
      proof (cases u)
        case 0 then show ?thesis unfolding mutex_inv_def using f L_wait Some by (simp add: WaitForSemaphore_def)
      next
        case (Suc v)
        then show ?thesis unfolding mutex_inv_def using f L_wait Some inv_L_wait [OF i t L_wait, of v]
          by (auto simp: WaitForSemaphore_def)
      qed
    qed
  next
    case (L_own x)
    then show ?thesis unfolding mutex_inv_def using f inv_set_owner [OF i t] by auto
  next
    case (T_assert b) then show ?thesis unfolding mutex_inv_def using f n [of "T_cas b"] nown own
      by (cases b) (auto split: if_splits)
  next
    case (T_cas b)
    then show ?thesis unfolding mutex_inv_def using f inv_T_cas [OF i t T_cas]
      by (auto simp: InterlockedCompareExchange_def split: if_splits)
  next
    case T_own
    then show ?thesis unfolding mutex_inv_def using f inv_set_owner [OF i t] by auto
  next
    case (U_assert x) then show ?thesis unfolding mutex_inv_def using f n [of "U_clear x"] by (auto split: if_splits)
  next
    case (U_clear x) then show ?thesis unfolding mutex_inv_def using f inv_U_clear [OF i t U_clear] by auto
  next
    case (U_dec x)
    then show ?thesis unfolding mutex_inv_def using f inv_U_dec [OF i t U_dec refl] by (auto simp: Let_def)
  next
    case (U_sem x)
    then show ?thesis unfolding mutex_inv_def using f inv_sem [OF i t, of "U_rel x"] by auto
  next
    case (U_rel x)
    then show ?thesis unfolding mutex_inv_def using f inv_U_rel [OF i t U_rel] by auto
  next
    case CW_inc
    then show ?thesis unfolding mutex_inv_def
      using f n [of "CW_store (c_waiters (cond s) + 1)"] by auto
  next
    case (CW_store v)
    then show ?thesis unfolding mutex_inv_def using f n [of "U_assert InWait"] by auto
  next
    case CW_wait then show ?thesis unfolding mutex_inv_def using f n [of CW_dec] nown
      by (auto simp: WaitForSemaphore_def split: if_splits)
  next
    case CW_dec then show ?thesis unfolding mutex_inv_def using f n [of "CW_cmp (c_waiters (cond s) - 1)"] nown
      by (auto simp: Let_def)
  next
    case (CW_cmp v) then show ?thesis unfolding mutex_inv_def using f n [of CW_set] n [of "L_assert InWait"] nown
      by (auto split: if_splits)
  next
    case CW_set then show ?thesis unfolding mutex_inv_def using f n [of "L_assert InWait"] by auto
  next
    case CS_assert then show ?thesis unfolding mutex_inv_def using f n [of CS_chk] by (auto split: if_splits)
  next
    case CS_chk then show ?thesis unfolding mutex_inv_def using f n [of Crit] n [of CS_target] own
      by (auto split: if_splits)
  next
    case CS_target then show ?thesis unfolding mutex_inv_def using f n [of CS_sig] own by (auto split: if_splits)
  next
    case CS_sig then show ?thesis unfolding mutex_inv_def using f n [of CS_wait] own
      by (auto split: if_splits option.splits)
  next
    case CS_wait then show ?thesis unfolding mutex_inv_def using f n [of Crit] own by (auto split: if_splits)
  next
    case CB_assert then show ?thesis unfolding mutex_inv_def using f n [of CB_chk] by (auto split: if_splits)
  next
    case CB_chk then show ?thesis unfolding mutex_inv_def using f n [of Crit] n [of CB_target] own
      by (auto split: if_splits)
  next
    case CB_target then show ?thesis unfolding mutex_inv_def using f n [of CB_rel] own by (auto split: if_splits)
  next
    case CB_rel then show ?thesis unfolding mutex_inv_def using f n [of CB_wait] own
      by (auto split: if_splits option.splits)
  next
    case CB_wait then show ?thesis unfolding mutex_inv_def using f n [of Crit] own by (auto split: if_splits)
  qed
qed

lemma num_ge2:
  assumes "t \<noteq> u" "phase_of (f t) = ph" "phase_of (f u) = ph"
  shows "2 \<le> num ph f"
proof -
  let ?w = "\<lambda>t. if phase_of (f t) = ph then 1 else (0::nat)"
  have "(\<Sum>v\<in>{t, u}. ?w v) \<le> (\<Sum>v\<in>UNIV. ?w v)"
    by (rule sum_mono2) auto
  then show ?thesis using assms by (simp add: num_def)
qed

lemma inv_call:
  assumes "mutex_inv s" "t \<noteq> 0" "fire (Call t g) s = Next s'"
  shows "mutex_inv s'"
proof -
  have i: "minv (mutex s) (pcs s)" using assms(1) by (simp add: mutex_inv_def)
  have own: "must_own (pcs s t) \<Longrightarrow> m_owner (mutex s) = t"
    using i unfolding minv_def by blast
  have nown: "\<not> may_own (pcs s t) \<Longrightarrow> m_owner (mutex s) \<noteq> t"
    using i assms(2) unfolding minv_def by blast
  from assms(3) have p: "pcs s t = Idle \<or> pcs s t = Crit"
    and s': "s' = s\<lparr>pcs := (pcs s)(t := entry (pcs s t) g)\<rparr>"
    by (auto split: if_splits)
  have "minv (mutex s) ((pcs s)(t := entry (pcs s t) g))"
    using p own nown by (intro inv_neutral [OF i assms(2)]; cases g; auto)
  then show ?thesis by (simp add: s' mutex_inv_def)
qed

lemma inv_init: "m_owner m0 = 0 \<Longrightarrow> mutex_inv (init m0 c0)"
  by (simp add: mutex_inv_def minv_def init_def qemu_mutex_init_def num_def owned_def tokens_def)

lemma inv_fire:
  assumes "mutex_inv s" "who e \<noteq> 0" "fire e s = Next s'"
  shows "mutex_inv s'"
proof (cases e)
  case (Call t g)
  have "t \<noteq> 0" using assms(2) Call by simp
  moreover have "fire (Call t g) s = Next s'" using assms(3) Call by (simp only:)
  ultimately show ?thesis by (rule inv_call [OF assms(1)])
next
  case (Step t)
  have "t \<noteq> 0" using assms(2) Step by simp
  moreover have "fire (Step t) s = Next s'" using assms(3) Step by (simp only:)
  ultimately show ?thesis by (rule inv_step [OF assms(1)])
qed

lemma run_invariant:
  assumes "P s" and "\<And>e s s'. P s \<Longrightarrow> who e \<noteq> 0 \<Longrightarrow> fire e s = Next s' \<Longrightarrow> P s'"
    and "0 \<notin> who ` set es" and "run es s = Inr s'"
  shows "P s'"
  using assms(1,3,4)
proof (induction es arbitrary: s)
  case Nil
  then show ?case by simp
next
  case (Cons e es)
  show ?case
  proof (cases "fire e s")
    case (Next s1)
    have "who e \<noteq> 0" using Cons.prems(2) by auto
    then have "P s1" using assms(2) [OF Cons.prems(1) _ Next] by simp
    then show ?thesis using Cons Next by auto
  next
    case Blocked
    then show ?thesis using Cons by auto
  next
    case (Abort x)
    then show ?thesis using Cons by auto
  qed
qed

lemma inv_run:
  assumes "m_owner m0 = 0" "0 \<notin> who ` set es" "run es (init m0 c0) = Inr s"
  shows "mutex_inv s"
  using run_invariant [of mutex_inv "init m0 c0", OF inv_init [OF assms(1)] inv_fire assms(2,3)] .

lemma owns_unique:
  assumes i: "mutex_inv s" and a: "owns s t" and b: "owns s u"
  shows "t = u"
proof (rule ccontr)
  assume d: "t \<noteq> u"
  have m: "minv (mutex s) (pcs s)" using i by (simp add: mutex_inv_def)
  have own: "\<And>v. must_own (pcs s v) \<Longrightarrow> m_owner (mutex s) = v"
    using m unfolding minv_def by blast
  have z: "pcs s 0 = Idle" using m unfolding minv_def by blast
  have cls: "\<And>v. owns s v \<Longrightarrow> v \<noteq> 0 \<and> (phase_of (pcs s v) = Holding \<or> m_owner (mutex s) = v)"
  proof -
    fix v assume o: "owns s v"
    have "v \<noteq> 0" using o z by (auto simp: owns_def)
    moreover have "phase_of (pcs s v) = Holding \<or> m_owner (mutex s) = v"
      using o own [of v] unfolding owns_def by (cases "pcs s v") auto
    ultimately show "v \<noteq> 0 \<and> (phase_of (pcs s v) = Holding \<or> m_owner (mutex s) = v)" by simp
  qed
  from cls [OF a] cls [OF b] d
  consider "phase_of (pcs s t) = Holding" "phase_of (pcs s u) = Holding"
    | "phase_of (pcs s t) = Holding" "m_owner (mutex s) = u" "u \<noteq> 0"
    | "phase_of (pcs s u) = Holding" "m_owner (mutex s) = t" "t \<noteq> 0"
    by auto
  then show False
  proof cases
    case 1
    then show ?thesis using num_ge2 [OF d, of "pcs s" Holding] holding_alone [OF m 1(1)] by simp
  next
    case 2
    then show ?thesis using holding_alone [OF m 2(1)] by simp
  next
    case 3
    then show ?thesis using holding_alone [OF m 3(1)] by simp
  qed
qed

lemma cnt_ge: "P (f t) \<Longrightarrow> 1 \<le> cnt P f"
  unfolding cnt_def
  using member_le_sum [of t UNIV "\<lambda>t. if P (f t) then 1 else (0::nat)"] by simp

lemma cnt_upd:
  "cnt P (f(t := p)) = cnt P f - (if P (f t) then 1 else 0) + (if P p then 1 else 0)"
proof -
  let ?w = "\<lambda>q. if P q then 1 else (0::nat)"
  have a: "cnt P f = ?w (f t) + (\<Sum>u\<in>UNIV - {t}. ?w (f u))"
    unfolding cnt_def by (rule sum.remove) auto
  have b: "cnt P (f(t := p)) = ?w p + (\<Sum>u\<in>UNIV - {t}. ?w ((f(t := p)) u))"
    unfolding cnt_def using sum.remove [of UNIV t "\<lambda>u. ?w ((f(t := p)) u)"] by simp
  have c: "(\<Sum>u\<in>UNIV - {t}. ?w ((f(t := p)) u)) = (\<Sum>u\<in>UNIV - {t}. ?w (f u))"
    by (rule sum.cong) auto
  show ?thesis using a b c by simp
qed

lemma cnt_bound:
  assumes "\<forall>u\<in>S. \<not> P (f u)"
  shows "cnt P f + card S \<le> 2 ^ 32"
proof -
  have "cnt P f \<le> (\<Sum>t\<in>UNIV. if t \<in> S then 0 else (1::nat))"
    unfolding cnt_def by (rule sum_mono) (use assms in auto)
  also have "\<dots> = card (UNIV - S)"
    by (simp add: sum.If_cases Compl_eq_Diff_UNIV)
  finally have "cnt P f + card S \<le> card (UNIV - S) + card S" by simp
  also have "\<dots> = card (UNIV :: tid set)"
  proof -
    have "(UNIV - S) \<inter> S = {}" by blast
    then show ?thesis
      using card_Un_disjoint [of "UNIV - S" S] by (simp add: Un_commute)
  qed
  finally show ?thesis by (simp add: card_word)
qed

subsection \<open>Mutual exclusion\<close>

text \<open>
  When the memory that \<open>qemu_mutex_init\<close> is given has 0 in its \<open>owner\<close> field: in every
  state that any interleaving of calls and steps of any number of threads reaches
  without aborting, at most one thread owns the mutex (has acquired it and not yet
  given it up, or is the recorded owner), and a thread between the return of its lock
  and its unlock is the recorded owner. Locking again by that thread, and unlocking by
  a thread that is outside, fail the assertion.
\<close>

lemma exclusion_from_zero_owner:
  assumes "run es (init m0 c0) = Inr s" "m_owner m0 = 0" "0 \<notin> who ` set es"
  shows "(\<forall>t u. owns s t \<and> owns s u \<longrightarrow> t = u) \<and>
         (\<forall>t. pcs s t = Crit \<longrightarrow> m_owner (mutex s) = t \<and> t \<noteq> 0) \<and>
         (\<forall>t. t \<noteq> 0 \<and> pcs s t = Crit \<longrightarrow>
              run [Call t Lock, Step t] s = Inl AssertFailed \<and>
              run [Call t Trylock, Step t] s = Inl AssertFailed) \<and>
         (\<forall>t. t \<noteq> 0 \<and> pcs s t = Idle \<longrightarrow> run [Call t Unlock, Step t] s = Inl AssertFailed)"
proof -
  have i: "mutex_inv s" using inv_run [OF assms(2,3,1)] .
  have m: "minv (mutex s) (pcs s)" using i by (simp add: mutex_inv_def)
  have own: "\<And>v. must_own (pcs s v) \<Longrightarrow> m_owner (mutex s) = v"
    using m unfolding minv_def by blast
  have nown: "\<And>v. v \<noteq> 0 \<Longrightarrow> \<not> may_own (pcs s v) \<Longrightarrow> m_owner (mutex s) \<noteq> v"
    using m unfolding minv_def by blast
  have z: "pcs s 0 = Idle" using m unfolding minv_def by blast
  have 1: "\<forall>t u. owns s t \<and> owns s u \<longrightarrow> t = u" using owns_unique [OF i] by blast
  have 2: "\<forall>t. pcs s t = Crit \<longrightarrow> m_owner (mutex s) = t \<and> t \<noteq> 0"
    using own z by auto
  have 3: "\<forall>t. t \<noteq> 0 \<and> pcs s t = Crit \<longrightarrow>
              run [Call t Lock, Step t] s = Inl AssertFailed \<and>
              run [Call t Trylock, Step t] s = Inl AssertFailed"
    using 2 by simp
  have 4: "\<forall>t. t \<noteq> 0 \<and> pcs s t = Idle \<longrightarrow> run [Call t Unlock, Step t] s = Inl AssertFailed"
    using nown by simp
  show ?thesis using 1 2 3 4 by blast
qed

text \<open>
  C5, where the code departs from it. \<open>qemu_mutex_init\<close> does not write \<open>owner\<close>. On
  memory whose \<open>owner\<close> field holds 5, the first \<open>qemu_mutex_lock\<close> of thread 5 on the
  initialised mutex fails the assertion, although thread 5 holds nothing; and
  \<open>qemu_mutex_unlock\<close> by thread 5, which never locked, passes the assertion and
  returns, after which threads 1 and 2 both return from \<open>qemu_mutex_lock\<close> and neither
  has unlocked.
\<close>

theorem stray_unlock_breaks_exclusion:
  "run [Call 5 Lock, Step 5] (init owner_5 zeroed_cond) = Inl AssertFailed \<and>
   (case run stray_unlock (init owner_5 zeroed_cond) of
      Inl e \<Rightarrow> False
    | Inr s \<Rightarrow> pcs s 5 = Idle \<and> pcs s 1 = Crit \<and> pcs s 2 = Crit \<and>
        m_count (mutex s) = 1 \<and> m_owner (mutex s) = 2)"
  by (simp add: stray_unlock_def owner_5_def zeroed_cond_def init_def qemu_mutex_init_def
      qemu_cond_init_def qemu_mutex_semaphore_def WaitForSemaphore_def ReleaseSemaphore_def
      LONG_MAX_def)

subsection \<open>qemu\_mutex\_trylock\<close>

lemma num_zero_iff: "num ph f = 0 \<longleftrightarrow> (\<forall>u. phase_of (f u) \<noteq> ph)"
proof
  assume z: "num ph f = 0"
  show "\<forall>u. phase_of (f u) \<noteq> ph"
  proof
    fix u show "phase_of (f u) \<noteq> ph" using num_ge [of f u ph] z by auto
  qed
next
  assume "\<forall>u. phase_of (f u) \<noteq> ph"
  then show "num ph f = 0" by (simp add: num_def)
qed

lemma acquired_cases: "acquired p \<longleftrightarrow> phase_of p = Holding \<or> (must_own p \<and> p \<noteq> T_assert True)"
  by (cases p) auto

text \<open>
  C6, as the code has it. On a mutex initialised on memory whose \<open>owner\<close> field was 0,
  in every state that an interleaving reaches, for a thread outside the functions:
  \<open>count\<close> is 0 exactly when no thread owns the mutex and no thread is queued for it
  (has incremented \<open>count\<close> and not yet taken its unit of the semaphore);
  \<open>qemu_mutex_trylock\<close> acquires in exactly these states, by the compare-and-swap from 0
  to 1, and then records the caller as owner; in every other state it returns true and
  leaves the state as it was. None of its steps can block.
\<close>

theorem trylock_succeeds_iff_free:
  assumes "run es (init m0 c0) = Inr s" "m_owner m0 = 0" "0 \<notin> who ` set es"
    and "t \<noteq> 0" "pcs s t = Idle"
  shows "(m_count (mutex s) = 0 \<longleftrightarrow> (\<forall>u. \<not> owns s u \<and> phase_of (pcs s u) \<noteq> Queued)) \<and>
         qemu_mutex_trylock t (mutex s) =
           (if \<forall>u. \<not> owns s u \<and> phase_of (pcs s u) \<noteq> Queued
            then Inr (False, (mutex s)\<lparr>m_count := 1, m_owner := t\<rparr>)
            else Inr (True, mutex s)) \<and>
         run [Call t Trylock, Step t, Step t, Step t] s =
           Inr (if \<forall>u. \<not> owns s u \<and> phase_of (pcs s u) \<noteq> Queued
                then s\<lparr>mutex := (mutex s)\<lparr>m_count := 1, m_owner := t\<rparr>,
                       pcs := (pcs s)(t := Crit)\<rparr>
                else s) \<and>
         (\<forall>b m c. exec t (T_assert b) m c \<noteq> Blocked \<and> exec t (T_cas b) m c \<noteq> Blocked \<and>
                  exec t T_own m c \<noteq> Blocked)"
proof -
  let ?free = "\<forall>u. \<not> owns s u \<and> phase_of (pcs s u) \<noteq> Queued"
  have i: "mutex_inv s" using inv_run [OF assms(2,3,1)] .
  have m: "minv (mutex s) (pcs s)" using i by (simp add: mutex_inv_def)
  have cnt: "unat (m_count (mutex s)) = num Queued (pcs s) + num Holding (pcs s) + owned (mutex s)"
    and own: "\<And>v. must_own (pcs s v) \<Longrightarrow> m_owner (mutex s) = v"
    and nown: "\<And>v. v \<noteq> 0 \<Longrightarrow> \<not> may_own (pcs s v) \<Longrightarrow> m_owner (mutex s) \<noteq> v"
    and z: "pcs s 0 = Idle"
    using m unfolding minv_def by blast+
  have o: "m_owner (mutex s) \<noteq> t" using nown [OF assms(4)] assms(5) by simp
  have iff: "m_count (mutex s) = 0 \<longleftrightarrow> ?free"
  proof
    assume c0: "m_count (mutex s) = 0"
    then have q: "num Queued (pcs s) = 0" and h: "num Holding (pcs s) = 0"
      and w: "owned (mutex s) = 0"
      using cnt by simp_all
    have w0: "m_owner (mutex s) = 0" using w by (simp add: owned_def split: if_splits)
    show ?free
    proof (intro allI conjI)
      fix u
      show "phase_of (pcs s u) \<noteq> Queued" using q num_zero_iff by blast
      have nh: "phase_of (pcs s u) \<noteq> Holding" using h num_zero_iff by blast
      have "\<not> must_own (pcs s u)"
      proof
        assume mu: "must_own (pcs s u)"
        then have "u = 0" using own w0 by metis
        then show False using mu z by simp
      qed
      then have "\<not> acquired (pcs s u)" using nh acquired_cases by blast
      then show "\<not> owns s u" using w0 by (auto simp: owns_def)
    qed
  next
    assume f: ?free
    have w0: "m_owner (mutex s) = 0"
    proof (rule ccontr)
      assume "m_owner (mutex s) \<noteq> 0"
      then have "owns s (m_owner (mutex s))" by (simp add: owns_def)
      then show False using f by blast
    qed
    have q: "num Queued (pcs s) = 0" using f num_zero_iff by blast
    have "\<forall>u. phase_of (pcs s u) \<noteq> Holding"
    proof
      fix u
      have "\<not> acquired (pcs s u)" using f by (simp add: owns_def)
      then show "phase_of (pcs s u) \<noteq> Holding" using acquired_cases by blast
    qed
    then have h: "num Holding (pcs s) = 0" using num_zero_iff by blast
    have "unat (m_count (mutex s)) = 0" using cnt q h w0 by (simp add: owned_def)
    then show "m_count (mutex s) = 0" by (simp add: unat_eq_0)
  qed
  have fn: "qemu_mutex_trylock t (mutex s) =
           (if ?free then Inr (False, (mutex s)\<lparr>m_count := 1, m_owner := t\<rparr>)
            else Inr (True, mutex s))"
    unfolding iff [symmetric] using o
    by (simp add: qemu_mutex_trylock_def InterlockedCompareExchange_def)
  have rn: "run [Call t Trylock, Step t, Step t, Step t] s =
           Inr (if ?free
                then s\<lparr>mutex := (mutex s)\<lparr>m_count := 1, m_owner := t\<rparr>,
                       pcs := (pcs s)(t := Crit)\<rparr>
                else s)"
    unfolding iff [symmetric] using o assms(5)
    by (simp add: InterlockedCompareExchange_def fun_upd_idem)
  have nb: "\<forall>b m c. exec t (T_assert b) m c \<noteq> Blocked \<and> exec t (T_cas b) m c \<noteq> Blocked \<and>
                  exec t T_own m c \<noteq> Blocked"
    by (simp add: InterlockedCompareExchange_def)
  show ?thesis using iff fn rn nb by blast
qed

theorem trylock_succeeds_iff_free_witness:
  "run hand_off (init zeroed_mutex zeroed_cond) =
     Inr \<lparr>mutex = \<lparr>m_count = 1, m_sema = Some 1, m_owner = 0\<rparr>,
          cond = \<lparr>c_waiters = 0, c_target = 0, c_sema = 0, c_event = False\<rparr>,
          pcs = (\<lambda>t. Idle)(2 := L_wait Top, 1 := Idle)\<rparr> \<and>
   run [Call 3 Trylock, Step 3, Step 3, Step 3]
     \<lparr>mutex = \<lparr>m_count = 1, m_sema = Some 1, m_owner = 0\<rparr>,
      cond = \<lparr>c_waiters = 0, c_target = 0, c_sema = 0, c_event = False\<rparr>,
      pcs = (\<lambda>t. Idle)(2 := L_wait Top, 1 := Idle)\<rparr> =
     Inr \<lparr>mutex = \<lparr>m_count = 1, m_sema = Some 1, m_owner = 0\<rparr>,
          cond = \<lparr>c_waiters = 0, c_target = 0, c_sema = 0, c_event = False\<rparr>,
          pcs = (\<lambda>t. Idle)(2 := L_wait Top, 1 := Idle)\<rparr> \<and>
   run [Call 3 Trylock, Step 3, Step 3, Step 3] (init zeroed_mutex zeroed_cond) =
     Inr \<lparr>mutex = \<lparr>m_count = 1, m_sema = None, m_owner = 3\<rparr>,
          cond = \<lparr>c_waiters = 0, c_target = 0, c_sema = 0, c_event = False\<rparr>,
          pcs = (\<lambda>t. Idle)(3 := Crit)\<rparr>"
proof -
  let ?s = "\<lparr>mutex = \<lparr>m_count = 1, m_sema = Some 1, m_owner = 0\<rparr>,
          cond = \<lparr>c_waiters = 0, c_target = 0, c_sema = 0, c_event = False\<rparr>,
          pcs = (\<lambda>t. Idle)(2 := L_wait Top, 1 := Idle)\<rparr>"
  let ?i = "init zeroed_mutex zeroed_cond"
  have r: "run hand_off ?i = Inr ?s"
    by (simp add: hand_off_def lock_free_def init_def zeroed_mutex_def zeroed_cond_def
        qemu_mutex_init_def qemu_cond_init_def qemu_mutex_semaphore_def ReleaseSemaphore_def
        LONG_MAX_def)
  have z: "0 \<notin> who ` set hand_off" by (simp add: hand_off_def lock_free_def)
  have o: "m_owner zeroed_mutex = 0" by (simp add: zeroed_mutex_def)
  have t: "(3::tid) \<noteq> 0" "pcs ?s 3 = Idle" "pcs ?i 3 = Idle" by (simp_all add: init_def)
  note a = trylock_succeeds_iff_free [OF r o z t(1,2)]
  have "m_count (mutex ?s) \<noteq> 0" by simp
  then have nf: "\<not> (\<forall>u. \<not> owns ?s u \<and> phase_of (pcs ?s u) \<noteq> Queued)" using a by blast
  have 1: "run [Call 3 Trylock, Step 3, Step 3, Step 3] ?s = Inr ?s"
    using a nf by presburger
  have r0: "run [] ?i = Inr ?i" by simp
  have z0: "0 \<notin> who ` set []" by simp
  note b = trylock_succeeds_iff_free [OF r0 o z0 t(1,3)]
  have "m_count (mutex ?i) = 0" by (simp add: init_def qemu_mutex_init_def)
  then have fr: "\<forall>u. \<not> owns ?i u \<and> phase_of (pcs ?i u) \<noteq> Queued" using b by blast
  have "run [Call 3 Trylock, Step 3, Step 3, Step 3] ?i =
     Inr (?i\<lparr>mutex := (mutex ?i)\<lparr>m_count := 1, m_owner := 3\<rparr>, pcs := (pcs ?i)(3 := Crit)\<rparr>)"
    using b fr by presburger
  then have 2: "run [Call 3 Trylock, Step 3, Step 3, Step 3] ?i =
     Inr \<lparr>mutex = \<lparr>m_count = 1, m_sema = None, m_owner = 3\<rparr>,
          cond = \<lparr>c_waiters = 0, c_target = 0, c_sema = 0, c_event = False\<rparr>,
          pcs = (\<lambda>t. Idle)(3 := Crit)\<rparr>"
    by (simp add: init_def zeroed_mutex_def zeroed_cond_def qemu_mutex_init_def qemu_cond_init_def)
  show ?thesis using r 1 2 by blast
qed

text \<open>
  C6, as stated, fails. After \<open>hand_off\<close> thread 1 has unlocked and released a unit for
  thread 2, which has not yet taken it: no thread owns the mutex, and
  \<open>qemu_mutex_trylock\<close> by thread 3 fails, because \<open>count\<close> still counts thread 2.
\<close>

theorem trylock_handed_off_counterexample:
  "run hand_off (init zeroed_mutex zeroed_cond) =
     Inr \<lparr>mutex = \<lparr>m_count = 1, m_sema = Some 1, m_owner = 0\<rparr>,
          cond = \<lparr>c_waiters = 0, c_target = 0, c_sema = 0, c_event = False\<rparr>,
          pcs = (\<lambda>t. Idle)(2 := L_wait Top, 1 := Idle)\<rparr> \<and>
   \<not> owns \<lparr>mutex = \<lparr>m_count = 1, m_sema = Some 1, m_owner = 0\<rparr>,
            cond = \<lparr>c_waiters = 0, c_target = 0, c_sema = 0, c_event = False\<rparr>,
            pcs = (\<lambda>t. Idle)(2 := L_wait Top, 1 := Idle)\<rparr> 1 \<and>
   \<not> owns \<lparr>mutex = \<lparr>m_count = 1, m_sema = Some 1, m_owner = 0\<rparr>,
            cond = \<lparr>c_waiters = 0, c_target = 0, c_sema = 0, c_event = False\<rparr>,
            pcs = (\<lambda>t. Idle)(2 := L_wait Top, 1 := Idle)\<rparr> 2 \<and>
   \<not> owns \<lparr>mutex = \<lparr>m_count = 1, m_sema = Some 1, m_owner = 0\<rparr>,
            cond = \<lparr>c_waiters = 0, c_target = 0, c_sema = 0, c_event = False\<rparr>,
            pcs = (\<lambda>t. Idle)(2 := L_wait Top, 1 := Idle)\<rparr> 3 \<and>
   qemu_mutex_trylock 3 \<lparr>m_count = 1, m_sema = Some 1, m_owner = 0\<rparr> =
     Inr (True, \<lparr>m_count = 1, m_sema = Some 1, m_owner = 0\<rparr>)"
  by (simp add: hand_off_def lock_free_def init_def zeroed_mutex_def zeroed_cond_def
      qemu_mutex_init_def qemu_cond_init_def qemu_mutex_semaphore_def ReleaseSemaphore_def
      LONG_MAX_def owns_def qemu_mutex_trylock_def InterlockedCompareExchange_def)

subsection \<open>qemu\_cond\_wait\<close>

text \<open>
  What one call does when no other thread runs between its steps: \<open>waiters\<close> is
  incremented; the mutex is released as \<open>qemu_mutex_unlock\<close> does; the thread is
  blocked on the semaphore of the condition variable while it holds no unit and takes
  one otherwise; \<open>waiters\<close> is decremented and the thread keeps the result; the result
  is compared with \<open>target\<close> as it is when the thread reads it, and \<open>continue_event\<close> is
  set when they are equal; the mutex is acquired again as \<open>qemu_mutex_lock\<close> does.
\<close>

lemma wait_steps:
  "(pcs s t \<in> {Idle, Crit} \<and> m_owner (mutex s) = t \<and> m_count (mutex s) = 1 \<longrightarrow>
      run [Call t Wait, Step t, Step t, Step t, Step t, Step t] s =
        Inr (s\<lparr>mutex := (mutex s)\<lparr>m_count := 0, m_owner := 0\<rparr>,
              cond := (cond s)\<lparr>c_waiters := c_waiters (cond s) + 1\<rparr>,
              pcs := (pcs s)(t := CW_wait)\<rparr>)) \<and>
   (pcs s t \<in> {Idle, Crit} \<and> m_owner (mutex s) = t \<and> m_count (mutex s) \<noteq> 1 \<and>
    tokens (mutex s) < LONG_MAX \<longrightarrow>
      run [Call t Wait, Step t, Step t, Step t, Step t, Step t, Step t, Step t] s =
        Inr (s\<lparr>mutex := (mutex s)\<lparr>m_count := m_count (mutex s) - 1,
                                   m_sema := Some (tokens (mutex s) + 1), m_owner := 0\<rparr>,
              cond := (cond s)\<lparr>c_waiters := c_waiters (cond s) + 1\<rparr>,
              pcs := (pcs s)(t := CW_wait)\<rparr>)) \<and>
   (pcs s t = CW_wait \<longrightarrow>
      fire (Step t) s =
        (if c_sema (cond s) = 0 then Blocked
         else Next (s\<lparr>cond := (cond s)\<lparr>c_sema := c_sema (cond s) - 1\<rparr>,
                     pcs := (pcs s)(t := CW_dec)\<rparr>))) \<and>
   (pcs s t = CW_dec \<longrightarrow>
      fire (Step t) s =
        Next (s\<lparr>cond := (cond s)\<lparr>c_waiters := c_waiters (cond s) - 1\<rparr>,
               pcs := (pcs s)(t := CW_cmp (c_waiters (cond s) - 1))\<rparr>)) \<and>
   (pcs s t = CW_cmp n \<longrightarrow>
      fire (Step t) s =
        Next (s\<lparr>pcs := (pcs s)(t := if n = c_target (cond s) then CW_set
                                      else L_assert InWait)\<rparr>)) \<and>
   (pcs s t = CW_set \<longrightarrow>
      fire (Step t) s =
        Next (s\<lparr>cond := (cond s)\<lparr>c_event := True\<rparr>, pcs := (pcs s)(t := L_assert InWait)\<rparr>)) \<and>
   (pcs s t = L_assert InWait \<and> m_owner (mutex s) \<noteq> t \<and> m_count (mutex s) = 0 \<longrightarrow>
      run [Step t, Step t, Step t] s =
        Inr (s\<lparr>mutex := (mutex s)\<lparr>m_count := 1, m_owner := t\<rparr>, pcs := (pcs s)(t := Crit)\<rparr>)) \<and>
   (pcs s t = L_assert InWait \<and> m_owner (mutex s) \<noteq> t \<and> m_count (mutex s) \<noteq> 0 \<longrightarrow>
      run [Step t, Step t, Step t] s =
        Inr (s\<lparr>mutex := qemu_mutex_semaphore ((mutex s)\<lparr>m_count := m_count (mutex s) + 1\<rparr>),
              pcs := (pcs s)(t := L_wait InWait)\<rparr>))"
  by (auto simp: Let_def qemu_mutex_semaphore_def tokens_def ReleaseSemaphore_def LONG_MAX_def
      WaitForSemaphore_def split: option.splits)

subsection \<open>qemu\_cond\_signal and qemu\_cond\_broadcast\<close>

text \<open>What one call does, whatever the other threads do in between.\<close>

lemma signal_steps:
  "(pcs s t \<in> {Idle, Crit} \<and> m_owner (mutex s) = t \<and> c_waiters (cond s) = 0 \<longrightarrow>
      run [Call t Signal, Step t, Step t] s = Inr (s\<lparr>pcs := (pcs s)(t := Crit)\<rparr>)) \<and>
   (pcs s t \<in> {Idle, Crit} \<and> m_owner (mutex s) = t \<and> c_waiters (cond s) \<noteq> 0 \<and>
    c_sema (cond s) < LONG_MAX \<longrightarrow>
      run [Call t Signal, Step t, Step t, Step t, Step t] s =
        Inr (s\<lparr>cond := (cond s)\<lparr>c_target := c_waiters (cond s) - 1,
                                 c_sema := c_sema (cond s) + 1\<rparr>,
              pcs := (pcs s)(t := CS_wait)\<rparr>)) \<and>
   (pcs s t = CS_wait \<longrightarrow>
      fire (Step t) s =
        (if c_event (cond s)
         then Next (s\<lparr>cond := (cond s)\<lparr>c_event := False\<rparr>, pcs := (pcs s)(t := Crit)\<rparr>)
         else Blocked))"
  by (auto simp: ReleaseSemaphore_def LONG_MAX_def)

lemma broadcast_steps:
  "(pcs s t \<in> {Idle, Crit} \<and> m_owner (mutex s) = t \<and> c_waiters (cond s) = 0 \<longrightarrow>
      run [Call t Broadcast, Step t, Step t] s = Inr (s\<lparr>pcs := (pcs s)(t := Crit)\<rparr>)) \<and>
   (pcs s t \<in> {Idle, Crit} \<and> m_owner (mutex s) = t \<and> c_waiters (cond s) \<noteq> 0 \<and>
    0 < sint (c_waiters (cond s)) \<and> c_sema (cond s) + unat (c_waiters (cond s)) \<le> LONG_MAX \<longrightarrow>
      run [Call t Broadcast, Step t, Step t, Step t, Step t] s =
        Inr (s\<lparr>cond := (cond s)\<lparr>c_target := 0,
                                 c_sema := c_sema (cond s) + unat (c_waiters (cond s))\<rparr>,
              pcs := (pcs s)(t := CB_wait)\<rparr>)) \<and>
   (pcs s t = CB_wait \<longrightarrow>
      fire (Step t) s =
        (if c_event (cond s)
         then Next (s\<lparr>cond := (cond s)\<lparr>c_event := False\<rparr>, pcs := (pcs s)(t := Crit)\<rparr>)
         else Blocked))"
  by (auto simp: ReleaseSemaphore_def LONG_MAX_def)

lemmas ev = lock_free_def wait_enter_def stalled_waiter_def early_signal_def stale_event_def
  early_broadcast_def late_waiter_def first_decrement_def target_rewritten_def
  lost_decrement_def init_def zeroed_mutex_def zeroed_cond_def qemu_mutex_init_def qemu_cond_init_def qemu_mutex_semaphore_def
  WaitForSemaphore_def ReleaseSemaphore_def InterlockedCompareExchange_def LONG_MAX_def

text \<open>
  C2, where the code departs from it. Thread 3 holds the mutex and calls
  \<open>qemu_cond_signal\<close> with two waiters, threads 2 and 4. The call returns while both
  still wait on the semaphore, the unit it released is still there and \<open>waiters\<close> is
  still 2: it was let go by thread 1, a waiter of the earlier broadcast that had
  decremented \<open>waiters\<close> to 1 before and read \<open>target\<close> only now.
\<close>

theorem signal_returns_before_waiter:
  "case run stalled_waiter (init zeroed_mutex zeroed_cond) of
     Inl e \<Rightarrow> False
   | Inr s \<Rightarrow>
       pcs s 3 = Crit \<and> m_owner (mutex s) = 3 \<and> pcs s 1 = CW_cmp 1 \<and>
       pcs s 2 = CW_wait \<and> pcs s 4 = CW_wait \<and>
       c_waiters (cond s) = 2 \<and> c_sema (cond s) = 0 \<and> \<not> c_event (cond s) \<and>
       (case run early_signal s of
          Inl e \<Rightarrow> False
        | Inr s' \<Rightarrow>
            pcs s' 3 = Crit \<and> pcs s' 2 = CW_wait \<and> pcs s' 4 = CW_wait \<and>
            c_target (cond s') = 1 \<and> c_waiters (cond s') = 2 \<and> c_sema (cond s') = 1)"
  by (simp add: ev)

text \<open>
  C3, where the code departs from it. After the run above thread 2 sets the event once
  more. Thread 3 then calls \<open>qemu_cond_broadcast\<close> with one waiter, thread 4: it releases
  one unit and returns at once on the event that was already set. Thread 1, which
  registers as a waiter only after that return, takes the unit; thread 4, the waiter
  registered at the call, stays blocked.
\<close>

theorem broadcast_unit_taken_by_late_waiter:
  "case run stale_event (init zeroed_mutex zeroed_cond) of
     Inl e \<Rightarrow> False
   | Inr s \<Rightarrow>
       pcs s 3 = Crit \<and> m_owner (mutex s) = 3 \<and> pcs s 4 = CW_wait \<and>
       pcs s 1 = L_assert InWait \<and> pcs s 2 = L_assert InWait \<and>
       c_waiters (cond s) = 1 \<and> c_sema (cond s) = 0 \<and> c_event (cond s) \<and>
       (case run early_broadcast s of
          Inl e \<Rightarrow> False
        | Inr s' \<Rightarrow>
            pcs s' 3 = Crit \<and> pcs s' 4 = CW_wait \<and> c_target (cond s') = 0 \<and>
            c_waiters (cond s') = 1 \<and> c_sema (cond s') = 1 \<and>
            (case run late_waiter s' of
               Inl e \<Rightarrow> False
             | Inr s'' \<Rightarrow>
                 pcs s'' 1 = CW_dec \<and> pcs s'' 4 = CW_wait \<and> c_sema (cond s'') = 0 \<and>
                 fire (Step 4) s'' = Blocked))"
  by (simp add: ev)

text \<open>
  C1, where the code departs from it. In \<open>qemu_cond_wait\<close> the decrement of \<open>waiters\<close>
  and the read of \<open>target\<close> are two accesses. Thread 1, woken by the broadcast of thread
  3, decrements \<open>waiters\<close> to 1 while \<open>target\<close> is 0: the decremented value is not the
  recorded target, and the event stays as it is. While thread 1 does not run, the
  broadcast completes and thread 3, signalling for two new waiters, stores 1 in
  \<open>target\<close>. Thread 1 then reads \<open>target\<close>, finds it equal to the value it kept and sets
  \<open>continue_event\<close>.
\<close>

theorem wait_sets_event_on_later_target:
  "case run first_decrement (init zeroed_mutex zeroed_cond) of
     Inl e \<Rightarrow> False
   | Inr s \<Rightarrow>
       pcs s 1 = CW_cmp 1 \<and> c_waiters (cond s) = 1 \<and> c_target (cond s) = 0 \<and>
       \<not> c_event (cond s) \<and>
       (case run target_rewritten s of
          Inl e \<Rightarrow> False
        | Inr s' \<Rightarrow>
            pcs s' 1 = CW_cmp 1 \<and> pcs s' 3 = CS_wait \<and> c_target (cond s') = 1 \<and>
            c_waiters (cond s') = 2 \<and> \<not> c_event (cond s') \<and>
            (case run [Step 1, Step 1] s' of
               Inl e \<Rightarrow> False
             | Inr s'' \<Rightarrow>
                 pcs s'' 1 = L_assert InWait \<and> c_event (cond s'') \<and>
                 c_waiters (cond s'') = 2 \<and> c_sema (cond s'') = 1))"
  by (simp add: ev)

text \<open>
  The statement \<open>cond->waiters++\<close> is a plain read and a plain write. After the signal
  above has returned, thread 3 calls \<open>qemu_cond_wait\<close> and reads 2; thread 2 takes the
  unit of the signal and decrements \<open>waiters\<close> to 1; thread 3 stores 3. Two threads (3
  and 4) are between their increment and their decrement, and \<open>waiters\<close> is 3.
\<close>

lemma waiters_decrement_lost:
  "case run (stalled_waiter @ early_signal) (init zeroed_mutex zeroed_cond) of
     Inl e \<Rightarrow> False
   | Inr s \<Rightarrow>
       pcs s 3 = Crit \<and> c_waiters (cond s) = 2 \<and>
       (case run lost_decrement s of
          Inl e \<Rightarrow> False
        | Inr s' \<Rightarrow>
            pcs s' 1 = L_assert InWait \<and> pcs s' 2 = CW_cmp 1 \<and>
            pcs s' 3 = U_assert InWait \<and> pcs s' 4 = CW_wait \<and>
            c_waiters (cond s') = 3)"
  by (simp add: ev)

subsection \<open>qemu\_thread\_join\<close>

lemma join_inv_new:
  assumes "join_inv f arg a s" "new_step f arg a s = Next s'"
  shows "join_inv f arg a s'"
  using assms unfolding join_inv_def
  by (cases "joiner s"; cases "new_thread s")
     (auto split: option.splits if_splits)

lemma join_inv_join:
  assumes "join_inv f arg a s" "th_data thr = Some a" "join_step thr s = Next s'"
  shows "join_inv f arg a s'"
  using assms unfolding join_inv_def
  by (cases "joiner s")
     (auto split: option.splits if_splits)

lemma join_inv_no_abort:
  assumes "join_inv f arg a s" "th_data thr = Some a"
  shows "new_step f arg a s \<noteq> Abort e" "join_step thr s \<noteq> Abort e"
  using assms unfolding join_inv_def
  by (cases "joiner s"; cases "new_thread s"; auto split: option.splits if_splits)+

lemma join_inv_create:
  "join_inv f arg a (snd (qemu_thread_create a i junk QEMU_THREAD_JOINABLE))"
  by (simp add: join_inv_def qemu_thread_create_def)

lemma join_inv_trun:
  assumes "join_inv f arg a s" "th_data thr = Some a"
  shows "\<exists>s'. trun f arg a thr xs s = Inr s' \<and> join_inv f arg a s'"
  using assms(1)
proof (induction xs arbitrary: s)
  case Nil
  then show ?case by simp
next
  case (Cons x xs)
  let ?o = "case x of New \<Rightarrow> new_step f arg a s | Joiner \<Rightarrow> join_step thr s"
  show ?case
  proof (cases ?o)
    case (Next s1)
    then have "join_inv f arg a s1"
      using join_inv_new [OF Cons.prems] join_inv_join [OF Cons.prems assms(2)]
      by (cases x) auto
    from Cons.IH [OF this] show ?thesis using Next by simp
  next
    case Blocked
    from Cons.IH [OF Cons.prems] show ?thesis using Blocked by simp
  next
    case (Abort e)
    then show ?thesis
      using join_inv_no_abort [OF Cons.prems assms(2), of e] by (cases x) auto
  qed
qed

text \<open>
  C9, as the code has it. \<open>qemu_thread_join\<close> on a \<open>QemuThread\<close> whose \<open>data\<close> is NULL
  returns NULL in one step and changes nothing else, and \<open>qemu_thread_create\<close> leaves
  \<open>data\<close> NULL for a detached thread. For a joinable thread, in every interleaving of
  the new thread with the join: nothing aborts; the join returns only the value that
  the entry routine returned and \<open>qemu_thread_exit\<close> stored, and only once the new thread
  has set \<open>exited\<close> or has terminated; when the join found \<open>exited\<close> false it is
  blocked until the thread has terminated. With the steps of both threads taken, in
  either order, the join does return that value and the descriptor is freed.
\<close>

theorem join_returns_exit_value:
  "(th_data thr = None \<and> joiner s = J_call \<longrightarrow>
      join_step thr s = Next (s\<lparr>joiner := J_done 0\<rparr>)) \<and>
   th_data (fst (qemu_thread_create a i junk QEMU_THREAD_DETACHED)) = None \<and>
   (\<exists>s'. trun f arg a (fst (qemu_thread_create a i junk QEMU_THREAD_JOINABLE)) xs
              (snd (qemu_thread_create a i junk QEMU_THREAD_JOINABLE)) = Inr s' \<and>
         (\<forall>r. joiner s' = J_done r \<longrightarrow>
              r = f arg \<and> new_thread s' \<in> {N_end, N_terminated} \<and> heap s' a = None) \<and>
         (joiner s' = J_wait a \<and> new_thread s' \<noteq> N_terminated \<longrightarrow>
              join_step (fst (qemu_thread_create a i junk QEMU_THREAD_JOINABLE)) s' = Blocked)) \<and>
   trun f arg a (fst (qemu_thread_create a i junk QEMU_THREAD_JOINABLE))
        [New, New, New, New, New, Joiner, Joiner, Joiner]
        (snd (qemu_thread_create a i junk QEMU_THREAD_JOINABLE)) =
     Inr \<lparr>heap = Map.empty, new_thread = N_terminated, tls = Some a, joiner = J_done (f arg)\<rparr> \<and>
   trun f arg a (fst (qemu_thread_create a i junk QEMU_THREAD_JOINABLE))
        [Joiner, Joiner, Joiner, New, New, New, New, New, Joiner, Joiner]
        (snd (qemu_thread_create a i junk QEMU_THREAD_JOINABLE)) =
     Inr \<lparr>heap = Map.empty, new_thread = N_terminated, tls = Some a, joiner = J_done (f arg)\<rparr>"
proof -
  let ?thr = "fst (qemu_thread_create a i junk QEMU_THREAD_JOINABLE)"
  let ?s0 = "snd (qemu_thread_create a i junk QEMU_THREAD_JOINABLE)"
  have d: "th_data ?thr = Some a" by (simp add: qemu_thread_create_def)
  obtain s' where r: "trun f arg a ?thr xs ?s0 = Inr s'" and i: "join_inv f arg a s'"
    using join_inv_trun [OF join_inv_create d] by blast
  have 1: "\<forall>r. joiner s' = J_done r \<longrightarrow>
              r = f arg \<and> new_thread s' \<in> {N_end, N_terminated} \<and> heap s' a = None"
    using i by (auto simp: join_inv_def)
  have 2: "joiner s' = J_wait a \<and> new_thread s' \<noteq> N_terminated \<longrightarrow> join_step ?thr s' = Blocked"
    by simp
  have 3: "\<exists>s'. trun f arg a ?thr xs ?s0 = Inr s' \<and>
         (\<forall>r. joiner s' = J_done r \<longrightarrow>
              r = f arg \<and> new_thread s' \<in> {N_end, N_terminated} \<and> heap s' a = None) \<and>
         (joiner s' = J_wait a \<and> new_thread s' \<noteq> N_terminated \<longrightarrow> join_step ?thr s' = Blocked)"
    using r 1 2 by blast
  have 4: "th_data thr = None \<and> joiner s = J_call \<longrightarrow>
      join_step thr s = Next (s\<lparr>joiner := J_done 0\<rparr>)" by simp
  have 5: "th_data (fst (qemu_thread_create a i junk QEMU_THREAD_DETACHED)) = None"
    by (simp add: qemu_thread_create_def)
  have 6: "trun f arg a ?thr [New, New, New, New, New, Joiner, Joiner, Joiner] ?s0 =
     Inr \<lparr>heap = Map.empty, new_thread = N_terminated, tls = Some a, joiner = J_done (f arg)\<rparr>"
    by (simp add: qemu_thread_create_def)
  have 7: "trun f arg a ?thr [Joiner, Joiner, Joiner, New, New, New, New, New, Joiner, Joiner] ?s0 =
     Inr \<lparr>heap = Map.empty, new_thread = N_terminated, tls = Some a, joiner = J_done (f arg)\<rparr>"
    by (simp add: qemu_thread_create_def)
  show ?thesis using 3 4 5 6 7 by blast
qed

theorem join_returns_exit_value_witness:
  "join_step \<lparr>th_data = None, th_tid = 7\<rparr>
     \<lparr>heap = Map.empty, new_thread = N_entry, tls = None, joiner = J_call\<rparr> =
     Next \<lparr>heap = Map.empty, new_thread = N_entry, tls = None, joiner = J_done 0\<rparr> \<and>
   fst (qemu_thread_create 100 7 0 QEMU_THREAD_DETACHED) = \<lparr>th_data = None, th_tid = 7\<rparr> \<and>
   trun Suc 41 100 \<lparr>th_data = Some 100, th_tid = 7\<rparr>
        [Joiner, Joiner, Joiner, New, New, New, New, New, Joiner, Joiner]
        (snd (qemu_thread_create 100 7 0 QEMU_THREAD_JOINABLE)) =
     Inr \<lparr>heap = Map.empty, new_thread = N_terminated, tls = Some 100, joiner = J_done 42\<rparr>"
  using join_returns_exit_value
          [of "\<lparr>th_data = None, th_tid = 7\<rparr>"
              "\<lparr>heap = Map.empty, new_thread = N_entry, tls = None, joiner = J_call\<rparr>"
              100 7 0 Suc 41 "[]"]
  by (simp add: qemu_thread_create_def)

text \<open>
  C9, as stated, fails where it says that the join blocks for termination: when the new
  thread has set \<open>exited\<close> and not yet called \<open>_endthreadex\<close>, the join takes no handle,
  never waits, and returns the value while the thread has not terminated.
\<close>

theorem join_before_termination_counterexample:
  "trun Suc 41 100 \<lparr>th_data = Some 100, th_tid = 7\<rparr>
        [New, New, New, New, Joiner, Joiner, Joiner]
        (snd (qemu_thread_create 100 7 0 QEMU_THREAD_JOINABLE)) =
     Inr \<lparr>heap = Map.empty, new_thread = N_end, tls = Some 100, joiner = J_done 42\<rparr> \<and>
   join_step \<lparr>th_data = Some 100, th_tid = 7\<rparr>
     \<lparr>heap = [100 \<mapsto> \<lparr>td_mode = QEMU_THREAD_JOINABLE, td_exited = True, td_ret = 42\<rparr>],
      new_thread = N_end, tls = Some 100, joiner = J_handle 100\<rparr> =
     Next \<lparr>heap = [100 \<mapsto> \<lparr>td_mode = QEMU_THREAD_JOINABLE, td_exited = True, td_ret = 42\<rparr>],
           new_thread = N_end, tls = Some 100, joiner = J_ret 100\<rparr>"
  by (simp add: qemu_thread_create_def)

subsection \<open>The reader-writer lock\<close>

lemma guard_keep:
  assumes "guard_inv cs inside f" "inside p' = inside (f t)"
  shows "guard_inv cs inside (f(t := p'))"
  using assms unfolding guard_inv_def by auto

lemma guard_enter:
  assumes g: "guard_inv cs inside f" and t: "t \<noteq> 0" and o: "\<not> inside (f t)" and i: "inside p'"
    and z: "\<not> inside (f 0)" and e: "EnterCriticalSection t cs = Some cs'"
  shows "guard_inv cs' inside (f(t := p'))"
proof -
  have nt: "cs_owner cs \<noteq> t" using g t o unfolding guard_inv_def by blast
  then have fr: "cs_owner cs = 0" and c': "cs' = \<lparr>cs_owner = t, cs_depth = 1\<rparr>"
    using e unfolding EnterCriticalSection_def by (simp_all split: if_splits)
  have none: "\<And>u. \<not> inside (f u)"
  proof
    fix u assume "inside (f u)"
    then have "u = 0" using g fr unfolding guard_inv_def by metis
    then show False using z \<open>inside (f u)\<close> by simp
  qed
  show ?thesis unfolding guard_inv_def c' using none i t by simp
qed

lemma guard_leave:
  assumes g: "guard_inv cs inside f" and t: "t \<noteq> 0" and o: "inside (f t)" and i: "\<not> inside p'"
  shows "LeaveCriticalSection t cs = Some \<lparr>cs_owner = 0, cs_depth = 0\<rparr> \<and>
         guard_inv \<lparr>cs_owner = 0, cs_depth = 0\<rparr> inside (f(t := p'))"
proof -
  have ow: "cs_owner cs = t" "cs_depth cs = 1" using g o unfolding guard_inv_def by blast+
  have only: "\<And>u. inside (f u) \<Longrightarrow> u = t" using g ow unfolding guard_inv_def by metis
  have l: "LeaveCriticalSection t cs = Some \<lparr>cs_owner = 0, cs_depth = 0\<rparr>"
    using ow by (simp add: LeaveCriticalSection_def)
  have "guard_inv \<lparr>cs_owner = 0, cs_depth = 0\<rparr> inside (f(t := p'))"
    unfolding guard_inv_def using only i by auto
  then show ?thesis using l by simp
qed

lemma guard_alone:
  assumes "guard_inv cs inside f" "inside (f t)" "inside (f u)"
  shows "u = t"
  using assms unfolding guard_inv_def by auto

lemma rw_exec_count_guard:
  assumes "rw_exec t p m = Next (p', m')"
  shows "(readerCountLock m' = readerCountLock m \<and> in_count_guard p' = in_count_guard p) \<or>
         (\<not> in_count_guard p \<and> in_count_guard p' \<and>
            EnterCriticalSection t (readerCountLock m) = Some (readerCountLock m')) \<or>
         (in_count_guard p \<and> \<not> in_count_guard p' \<and>
            LeaveCriticalSection t (readerCountLock m) = Some (readerCountLock m'))"
  using assms by (cases p) (auto simp: Let_def split: if_splits option.splits)

lemma rw_exec_writer_guard:
  assumes "rw_exec t p m = Next (p', m')"
  shows "(writerLock m' = writerLock m \<and> in_writer_guard p' = in_writer_guard p) \<or>
         (\<not> in_writer_guard p \<and> in_writer_guard p' \<and>
            EnterCriticalSection t (writerLock m) = Some (writerLock m')) \<or>
         (in_writer_guard p \<and> \<not> in_writer_guard p' \<and>
            LeaveCriticalSection t (writerLock m) = Some (writerLock m')) \<or>
         (\<exists>r. p = X_chk r \<and> writerLock m' = writerLock m \<and> (r \<longleftrightarrow> writer m = t))"
  using assms by (cases p) (auto simp: Let_def split: if_splits option.splits)

lemma rw_exec_count:
  assumes "rw_exec t p m = Next (p', m')"
  shows "(counted_reader p' = counted_reader p \<and> readerCount m' = readerCount m) \<or>
         (p = R_inc \<and> counted_reader p' \<and> readerCount m' = readerCount m + 1) \<or>
         (p = X_dec \<and> \<not> counted_reader p' \<and> readerCount m' = readerCount m - 1) \<or>
         (\<exists>r. p = X_chk r \<and> readerCount m' = readerCount m \<and> (r \<longleftrightarrow> writer m = t))"
  using assms by (cases p) (auto simp: Let_def split: if_splits option.splits)

lemma rw_exec_writer:
  assumes "rw_exec t p m = Next (p', m')"
  shows "(writer m' = writer m \<and> holds_write p' = holds_write p) \<or>
         (p = W_set \<and> p' = Wr \<and> writer m' = t) \<or>
         (p = X_clear \<and> p' = X_leaveW \<and> writer m' = 0) \<or>
         (\<exists>r. p = X_chk r \<and> writer m' = writer m \<and> (r \<longleftrightarrow> writer m = t))"
  using assms by (cases p) (auto simp: Let_def split: if_splits option.splits)

lemma rw_exec_event:
  assumes "rw_exec t p m = Next (p', m')"
  shows "(readerCount m' = readerCount m \<and> noReaders m' = noReaders m \<and>
            p \<notin> {R_reset, X_set} \<and> p' \<notin> {R_reset, X_set}) \<or>
         (p = R_inc \<and> readerCount m' = readerCount m + 1 \<and> noReaders m' = noReaders m \<and>
            p' = (if readerCount m + 1 = 1 then R_reset else R_leaveC)) \<or>
         (p = R_reset \<and> p' = R_leaveC \<and> readerCount m' = readerCount m \<and> \<not> noReaders m') \<or>
         (p = X_dec \<and> readerCount m' = readerCount m - 1 \<and> noReaders m' = noReaders m \<and>
            p' = (if readerCount m - 1 = 0 then X_set else X_leaveC)) \<or>
         (p = X_set \<and> p' = X_leaveC \<and> readerCount m' = readerCount m \<and> noReaders m')"
  using assms by (cases p) (auto simp: Let_def split: if_splits option.splits)

lemma holds_write_guard: "holds_write p \<Longrightarrow> in_writer_guard p"
  by (cases p) auto

lemma upd_iff: "f t \<noteq> q \<Longrightarrow> p' \<noteq> q \<Longrightarrow> ((f(t := p')) u = q) = (f u = q)"
  by (cases "u = t") simp_all

lemma others_out:
  assumes "\<forall>u. u \<noteq> t \<longrightarrow> f u \<noteq> a \<and> f u \<noteq> b"
  shows "(\<forall>u. (f(t := p')) u \<noteq> a) \<longleftrightarrow> p' \<noteq> a"
    and "(\<forall>u. (f(t := p')) u = b \<longrightarrow> P) \<longleftrightarrow> (p' = b \<longrightarrow> P)"
    and "(\<forall>u. (f(t := p')) u = a \<longrightarrow> Q) \<longleftrightarrow> (p' = a \<longrightarrow> Q)"
proof -
  show "(\<forall>u. (f(t := p')) u \<noteq> a) \<longleftrightarrow> p' \<noteq> a"
  proof
    assume "\<forall>u. (f(t := p')) u \<noteq> a"
    then have "(f(t := p')) t \<noteq> a" by (rule spec)
    then show "p' \<noteq> a" by simp
  next
    assume n: "p' \<noteq> a"
    show "\<forall>u. (f(t := p')) u \<noteq> a"
    proof
      fix u show "(f(t := p')) u \<noteq> a" using n assms by (cases "u = t") simp_all
    qed
  qed
  show "(\<forall>u. (f(t := p')) u = b \<longrightarrow> P) \<longleftrightarrow> (p' = b \<longrightarrow> P)"
  proof
    assume "\<forall>u. (f(t := p')) u = b \<longrightarrow> P"
    then have "(f(t := p')) t = b \<longrightarrow> P" by (rule spec)
    then show "p' = b \<longrightarrow> P" by simp
  next
    assume n: "p' = b \<longrightarrow> P"
    show "\<forall>u. (f(t := p')) u = b \<longrightarrow> P"
    proof
      fix u show "(f(t := p')) u = b \<longrightarrow> P" using n assms by (cases "u = t") simp_all
    qed
  qed
  show "(\<forall>u. (f(t := p')) u = a \<longrightarrow> Q) \<longleftrightarrow> (p' = a \<longrightarrow> Q)"
  proof
    assume "\<forall>u. (f(t := p')) u = a \<longrightarrow> Q"
    then have "(f(t := p')) t = a \<longrightarrow> Q" by (rule spec)
    then show "p' = a \<longrightarrow> Q" by simp
  next
    assume n: "p' = a \<longrightarrow> Q"
    show "\<forall>u. (f(t := p')) u = a \<longrightarrow> Q"
    proof
      fix u show "(f(t := p')) u = a \<longrightarrow> Q" using n assms by (cases "u = t") simp_all
    qed
  qed
qed

lemma rinv_step:
  assumes i: "rinv m f" and t: "t \<noteq> 0" and e: "rw_exec t (f t) m = Next (p', m')"
  shows "rinv m' (f(t := p'))"
proof -
  have z: "f 0 = Out"
    and k1: "unat (readerCount m) = cnt counted_reader f"
    and gc: "guard_inv (readerCountLock m) in_count_guard f"
    and gw: "guard_inv (writerLock m) in_writer_guard f"
    and h1: "\<And>u. holds_write (f u) \<Longrightarrow> writer m = u"
    and h2: "writer m \<noteq> 0 \<Longrightarrow> holds_write (f (writer m))"
    and k5: "(\<forall>u. f u \<noteq> R_reset) \<Longrightarrow> readerCount m \<noteq> 0 \<Longrightarrow> \<not> noReaders m"
    and k6: "\<And>u. f u = X_set \<Longrightarrow> readerCount m = 0"
    and k8: "\<And>u. f u = R_reset \<Longrightarrow> readerCount m = 1"
    using i unfolding rinv_def by blast+
  have xchk: "\<And>r. f t = X_chk r \<Longrightarrow> r \<longleftrightarrow> writer m \<noteq> t"
  proof -
    fix r assume x: "f t = X_chk r"
    show "r \<longleftrightarrow> writer m \<noteq> t"
    proof (cases r)
      case True
      then have "\<not> holds_write (f t)" using x by simp
      then have "writer m \<noteq> t" using h2 t by metis
      then show ?thesis using True by simp
    next
      case False
      then have "holds_write (f t)" using x by simp
      then show ?thesis using h1 False by simp
    qed
  qed
  have a: "(f(t := p')) 0 = Out" using z t by simp
  have b: "unat (readerCount m') = cnt counted_reader (f(t := p'))"
  proof -
    from rw_exec_count [OF e] xchk consider
        "counted_reader p' = counted_reader (f t)" "readerCount m' = readerCount m"
      | "f t = R_inc" "counted_reader p'" "readerCount m' = readerCount m + 1"
      | "f t = X_dec" "\<not> counted_reader p'" "readerCount m' = readerCount m - 1"
      by blast
    then show ?thesis
    proof cases
      case 1
      then show ?thesis using k1 cnt_ge [of counted_reader f t] by (auto simp: cnt_upd)
    next
      case 2
      have "\<forall>u\<in>{0, t}. \<not> counted_reader (f u)" using z 2 by simp
      from cnt_bound [of "{0, t}" counted_reader f, OF this] t
      have "unat (readerCount m) + 2 \<le> 2 ^ 32" using k1 by simp
      then have "unat (readerCount m + 1) = unat (readerCount m) + 1"
        by (simp add: unat_word_ariths)
      then show ?thesis using 2 k1 by (simp add: cnt_upd)
    next
      case 3
      have g: "1 \<le> cnt counted_reader f" using cnt_ge [of counted_reader f t] 3 by simp
      then have "readerCount m \<noteq> 0" using k1 by auto
      then have "unat (readerCount m - 1) = unat (readerCount m) - 1"
        by (simp add: unat_minus_one)
      then show ?thesis using 3 k1 g by (simp add: cnt_upd)
    qed
  qed
  have c: "guard_inv (readerCountLock m') in_count_guard (f(t := p'))"
  proof -
    from rw_exec_count_guard [OF e] consider
        "readerCountLock m' = readerCountLock m" "in_count_guard p' = in_count_guard (f t)"
      | "\<not> in_count_guard (f t)" "in_count_guard p'"
        "EnterCriticalSection t (readerCountLock m) = Some (readerCountLock m')"
      | "in_count_guard (f t)" "\<not> in_count_guard p'"
        "LeaveCriticalSection t (readerCountLock m) = Some (readerCountLock m')"
      by blast
    then show ?thesis
    proof cases
      case 1 then show ?thesis using guard_keep [OF gc] by simp
    next
      case 2 then show ?thesis using guard_enter [OF gc t] z by simp
    next
      case 3 then show ?thesis using guard_leave [OF gc t, of p'] by simp
    qed
  qed
  have d: "guard_inv (writerLock m') in_writer_guard (f(t := p'))"
  proof -
    from rw_exec_writer_guard [OF e] xchk consider
        "writerLock m' = writerLock m" "in_writer_guard p' = in_writer_guard (f t)"
      | "\<not> in_writer_guard (f t)" "in_writer_guard p'"
        "EnterCriticalSection t (writerLock m) = Some (writerLock m')"
      | "in_writer_guard (f t)" "\<not> in_writer_guard p'"
        "LeaveCriticalSection t (writerLock m) = Some (writerLock m')"
      by blast
    then show ?thesis
    proof cases
      case 1 then show ?thesis using guard_keep [OF gw] by simp
    next
      case 2 then show ?thesis using guard_enter [OF gw t] z by simp
    next
      case 3 then show ?thesis using guard_leave [OF gw t, of p'] by simp
    qed
  qed
  have w: "(\<forall>u. holds_write ((f(t := p')) u) \<longrightarrow> writer m' = u) \<and>
           (writer m' \<noteq> 0 \<longrightarrow> holds_write ((f(t := p')) (writer m')))"
  proof -
    from rw_exec_writer [OF e] xchk consider
        "writer m' = writer m" "holds_write p' = holds_write (f t)"
      | "f t = W_set" "p' = Wr" "writer m' = t"
      | "f t = X_clear" "p' = X_leaveW" "writer m' = 0"
      by blast
    then show ?thesis
    proof cases
      case 1
      have x: "holds_write ((f(t := p')) u) = holds_write (f u)" for u
        using 1(2) by (cases "u = t") simp_all
      show ?thesis unfolding x 1(1) using h1 h2 by blast
    next
      case 2
      have "\<And>u. holds_write (f u) \<Longrightarrow> u = t"
        using guard_alone [OF gw, of t] holds_write_guard 2 by simp
      then show ?thesis using 2 by auto
    next
      case 3
      have "\<And>u. holds_write (f u) \<Longrightarrow> u = t" using h1 [of t] h1 3 by simp
      then show ?thesis using 3 by auto
    qed
  qed
  have ev: "((\<forall>u. (f(t := p')) u \<noteq> R_reset) \<longrightarrow> readerCount m' \<noteq> 0 \<longrightarrow> \<not> noReaders m') \<and>
            (\<forall>u. (f(t := p')) u = X_set \<longrightarrow> readerCount m' = 0) \<and>
            (\<forall>u. (f(t := p')) u = R_reset \<longrightarrow> readerCount m' = 1)"
  proof (cases "in_count_guard (f t)")
    case False
    then have n: "f t \<noteq> R_reset" "f t \<noteq> X_set" "f t \<noteq> R_inc" "f t \<noteq> X_dec" by auto
    from rw_exec_event [OF e] n
    have s: "readerCount m' = readerCount m" "noReaders m' = noReaders m"
      "p' \<noteq> R_reset" "p' \<noteq> X_set"
      by auto
    have "(\<forall>u. (f(t := p')) u \<noteq> R_reset) \<longleftrightarrow> (\<forall>u. f u \<noteq> R_reset)"
      using upd_iff [of f t R_reset p', OF n(1) s(3)] by simp
    moreover have "\<And>u. (f(t := p')) u = X_set \<Longrightarrow> f u = X_set"
      using upd_iff [of f t X_set p', OF n(2) s(4)] by simp
    moreover have "\<And>u. (f(t := p')) u = R_reset \<Longrightarrow> f u = R_reset"
      using upd_iff [of f t R_reset p', OF n(1) s(3)] by simp
    ultimately show ?thesis using s(1,2) k5 k6 k8 by metis
  next
    case True
    have oth: "\<forall>u. u \<noteq> t \<longrightarrow> f u \<noteq> R_reset \<and> f u \<noteq> X_set"
    proof (intro allI impI)
      fix u assume "u \<noteq> t"
      then have "\<not> in_count_guard (f u)" using guard_alone [OF gc True, of u] by blast
      then show "f u \<noteq> R_reset \<and> f u \<noteq> X_set" by auto
    qed
    note r = others_out [OF oth]
    have goal: "(p' \<noteq> R_reset \<longrightarrow> readerCount m' \<noteq> 0 \<longrightarrow> \<not> noReaders m') \<and>
                (p' = X_set \<longrightarrow> readerCount m' = 0) \<and> (p' = R_reset \<longrightarrow> readerCount m' = 1)"
    proof -
      from rw_exec_event [OF e] consider
          "readerCount m' = readerCount m" "noReaders m' = noReaders m"
          "f t \<noteq> R_reset" "f t \<noteq> X_set" "p' \<noteq> R_reset" "p' \<noteq> X_set"
        | "f t = R_inc" "readerCount m' = readerCount m + 1" "noReaders m' = noReaders m"
          "p' = (if readerCount m + 1 = 1 then R_reset else R_leaveC)"
        | "f t = R_reset" "p' = R_leaveC" "readerCount m' = readerCount m" "\<not> noReaders m'"
        | "f t = X_dec" "readerCount m' = readerCount m - 1" "noReaders m' = noReaders m"
          "p' = (if readerCount m - 1 = 0 then X_set else X_leaveC)"
        | "f t = X_set" "p' = X_leaveC" "readerCount m' = readerCount m" "noReaders m'"
        by auto
      then show ?thesis
      proof cases
        case 1
        have "\<forall>u. f u \<noteq> R_reset" using oth 1(3) by metis
        then show ?thesis using 1 k5 by simp
      next
        case 2
        have "f t \<noteq> R_reset" using 2(1) by simp
        then have no: "\<forall>u. f u \<noteq> R_reset" using oth by metis
        have "readerCount m + 1 \<noteq> 1 \<Longrightarrow> \<not> noReaders m" using k5 [OF no] by simp
        then show ?thesis using 2 by simp
      next
        case 3
        then show ?thesis by simp
      next
        case 4
        have "f t \<noteq> R_reset" using 4(1) by simp
        then have no: "\<forall>u. f u \<noteq> R_reset" using oth by metis
        have "1 \<le> cnt counted_reader f" using cnt_ge [of counted_reader f t] 4 by simp
        then have "readerCount m \<noteq> 0" using k1 by auto
        then have "\<not> noReaders m" using k5 [OF no] by simp
        then show ?thesis using 4 by simp
      next
        case 5
        have "readerCount m = 0" using k6 5 by blast
        then show ?thesis using 5 by simp
      qed
    qed
    show ?thesis unfolding r using goal by simp
  qed
  show ?thesis unfolding rinv_def using a b c d w ev by blast
qed

lemma rw_entry_cases:
  "rw_entry p g = Some p' \<Longrightarrow>
     (p = Out \<and> p' = R_assert) \<or> (p = Out \<and> p' = W_enter) \<or>
     (p = Rd \<and> p' = X_chk True) \<or> (p = Wr \<and> p' = X_chk False)"
  by (cases p; cases g; simp)

lemma rw_inv_step:
  assumes "rw_inv s" "t \<noteq> 0" "rw_fire (RStep t) s = Next s'"
  shows "rw_inv s'"
proof -
  obtain p' m' where e: "rw_exec t (rpcs s t) (rw s) = Next (p', m')"
    and s': "s' = s\<lparr>rw := m', rpcs := (rpcs s)(t := p')\<rparr>"
    using assms(3) by (auto split: outcome.splits)
  have "rinv m' ((rpcs s)(t := p'))"
    using rinv_step [of "rw s" "rpcs s" t p' m', OF _ assms(2) e] assms(1)
    by (simp add: rw_inv_def)
  then show ?thesis by (simp add: s' rw_inv_def)
qed

lemma rw_inv_call:
  assumes "rw_inv s" "t \<noteq> 0" "rw_fire (RCall t g) s = Next s'"
  shows "rw_inv s'"
proof -
  obtain p' where e: "rw_entry (rpcs s t) g = Some p'"
    and s': "s' = s\<lparr>rpcs := (rpcs s)(t := p')\<rparr>"
    using assms(3) by (auto split: option.splits)
  let ?f = "rpcs s" and ?m = "rw s"
  have i: "rinv ?m ?f" using assms(1) by (simp add: rw_inv_def)
  have same: "counted_reader p' = counted_reader (?f t)" "in_count_guard p' = in_count_guard (?f t)"
    "in_writer_guard p' = in_writer_guard (?f t)" "holds_write p' = holds_write (?f t)"
    "?f t \<noteq> R_reset" "?f t \<noteq> X_set" "p' \<noteq> R_reset" "p' \<noteq> X_set"
    using rw_entry_cases [OF e] by auto
  have z: "?f 0 = Out"
    and k1: "unat (readerCount ?m) = cnt counted_reader ?f"
    and gc: "guard_inv (readerCountLock ?m) in_count_guard ?f"
    and gw: "guard_inv (writerLock ?m) in_writer_guard ?f"
    and h1: "\<And>u. holds_write (?f u) \<Longrightarrow> writer ?m = u"
    and h2: "writer ?m \<noteq> 0 \<Longrightarrow> holds_write (?f (writer ?m))"
    and k5: "(\<forall>u. ?f u \<noteq> R_reset) \<Longrightarrow> readerCount ?m \<noteq> 0 \<Longrightarrow> \<not> noReaders ?m"
    and k6: "\<And>u. ?f u = X_set \<Longrightarrow> readerCount ?m = 0"
    and k8: "\<And>u. ?f u = R_reset \<Longrightarrow> readerCount ?m = 1"
    using i unfolding rinv_def by blast+
  have a: "(?f(t := p')) 0 = Out" using z assms(2) by simp
  have b: "unat (readerCount ?m) = cnt counted_reader (?f(t := p'))"
    using k1 same(1) cnt_ge [of counted_reader ?f t] by (auto simp: cnt_upd)
  have c: "guard_inv (readerCountLock ?m) in_count_guard (?f(t := p'))"
    using guard_keep [OF gc same(2)] .
  have d: "guard_inv (writerLock ?m) in_writer_guard (?f(t := p'))"
    using guard_keep [OF gw same(3)] .
  have x: "holds_write ((?f(t := p')) u) = holds_write (?f u)" for u
    using same(4) by (cases "u = t") simp_all
  have w: "(\<forall>u. holds_write ((?f(t := p')) u) \<longrightarrow> writer ?m = u) \<and>
           (writer ?m \<noteq> 0 \<longrightarrow> holds_write ((?f(t := p')) (writer ?m)))"
    unfolding x using h1 h2 by blast
  have "(\<forall>u. (?f(t := p')) u \<noteq> R_reset) \<longleftrightarrow> (\<forall>u. ?f u \<noteq> R_reset)"
    using upd_iff [of ?f t R_reset p', OF same(5,7)] by simp
  moreover have "\<And>u. (?f(t := p')) u = X_set \<Longrightarrow> ?f u = X_set"
    using upd_iff [of ?f t X_set p', OF same(6,8)] by simp
  moreover have "\<And>u. (?f(t := p')) u = R_reset \<Longrightarrow> ?f u = R_reset"
    using upd_iff [of ?f t R_reset p', OF same(5,7)] by simp
  ultimately have ev:
    "((\<forall>u. (?f(t := p')) u \<noteq> R_reset) \<longrightarrow> readerCount ?m \<noteq> 0 \<longrightarrow> \<not> noReaders ?m) \<and>
     (\<forall>u. (?f(t := p')) u = X_set \<longrightarrow> readerCount ?m = 0) \<and>
     (\<forall>u. (?f(t := p')) u = R_reset \<longrightarrow> readerCount ?m = 1)"
    using k5 k6 k8 by metis
  have "rinv ?m (?f(t := p'))" unfolding rinv_def using a b c d w ev by blast
  then show ?thesis by (simp add: s' rw_inv_def)
qed

lemma rw_inv_fire:
  assumes "rw_inv s" "rw_who e \<noteq> 0" "rw_fire e s = Next s'"
  shows "rw_inv s'"
proof (cases e)
  case (RCall t g)
  have "t \<noteq> 0" using assms(2) RCall by simp
  moreover have "rw_fire (RCall t g) s = Next s'" using assms(3) RCall by (simp only:)
  ultimately show ?thesis by (rule rw_inv_call [OF assms(1)])
next
  case (RStep t)
  have "t \<noteq> 0" using assms(2) RStep by simp
  moreover have "rw_fire (RStep t) s = Next s'" using assms(3) RStep by (simp only:)
  ultimately show ?thesis by (rule rw_inv_step [OF assms(1)])
qed

lemma rw_inv_init: "readerCount m0 = 0 \<Longrightarrow> writer m0 = 0 \<Longrightarrow> rw_inv (rw_init m0)"
  by (simp add: rw_inv_def rinv_def guard_inv_def rw_init_def qemu_rwmutex_init_def
      InitializeCriticalSection_def cnt_def)

lemma rw_inv_run:
  assumes "readerCount m0 = 0" "writer m0 = 0"
    and "0 \<notin> rw_who ` set es" "rw_run es (rw_init m0) = Inr s"
  shows "rw_inv s"
proof -
  have "rw_inv s0 \<Longrightarrow> 0 \<notin> rw_who ` set es \<Longrightarrow> rw_run es s0 = Inr s \<Longrightarrow> rw_inv s" for s0
  proof (induction es arbitrary: s0)
    case Nil
    then show ?case by simp
  next
    case (Cons e es)
    show ?case
    proof (cases "rw_fire e s0")
      case (Next s1)
      have "rw_who e \<noteq> 0" using Cons.prems(2) by auto
      then have "rw_inv s1" using rw_inv_fire [OF Cons.prems(1) _ Next] by simp
      then show ?thesis using Cons Next by auto
    next
      case Blocked
      then show ?thesis using Cons by auto
    next
      case (Abort x)
      then show ?thesis using Cons by auto
    qed
  qed
  then show ?thesis using rw_inv_init [OF assms(1,2)] assms(3,4) by blast
qed

text \<open>
  When the memory that \<open>qemu_rwmutex_init\<close> is given has 0 in \<open>readerCount\<close> and in
  \<open>writer\<close>, with callers that take the lock only when they hold nothing and unlock
  only what they hold, in every state that an interleaving reaches: \<open>writer\<close> is not 0
  exactly when some thread holds the lock as the writer, and that thread is \<open>writer\<close>;
  and whenever no thread is between the increment from 0 to 1 and its \<open>ResetEvent\<close> (so
  whenever \<open>readerCountLock\<close> is free), a positive \<open>readerCount\<close> means that \<open>noReaders\<close>
  is not signaled. A reader's unlock decrements \<open>readerCount\<close> and leaves \<open>noReaders\<close>
  signaled exactly when the result is 0, and as it was otherwise.
\<close>

lemma rwlock_invariant_zeroed:
  "(rw_run es (rw_init m0) = Inr s \<and> readerCount m0 = 0 \<and> writer m0 = 0 \<and> 0 \<notin> rw_who ` set es \<longrightarrow>
      (writer (rw s) \<noteq> 0 \<longleftrightarrow> (\<exists>u. holds_write (rpcs s u))) \<and>
      (\<forall>u. holds_write (rpcs s u) \<longrightarrow> writer (rw s) = u) \<and>
      ((\<forall>u. rpcs s u \<noteq> R_reset) \<longrightarrow> 0 <s readerCount (rw s) \<longrightarrow> \<not> noReaders (rw s)) \<and>
      (cs_owner (readerCountLock (rw s)) = 0 \<longrightarrow>
         0 <s readerCount (rw s) \<longrightarrow> \<not> noReaders (rw s))) \<and>
   (rpcs s t = Rd \<and> writer (rw s) \<noteq> t \<and> 0 <s readerCount (rw s) \<and>
    readerCountLock (rw s) = \<lparr>cs_owner = 0, cs_depth = 0\<rparr> \<longrightarrow>
      rw_run [RCall t RwUnlock, RStep t, RStep t, RStep t, RStep t, RStep t, RStep t] s =
        Inr (s\<lparr>rw := (rw s)\<lparr>readerCount := readerCount (rw s) - 1,
                              noReaders := (if readerCount (rw s) - 1 = 0 then True
                                            else noReaders (rw s))\<rparr>,
              rpcs := (rpcs s)(t := Out)\<rparr>))"
proof -
  have glob: "rw_run es (rw_init m0) = Inr s \<and> readerCount m0 = 0 \<and> writer m0 = 0 \<and> 0 \<notin> rw_who ` set es \<longrightarrow>
      (writer (rw s) \<noteq> 0 \<longleftrightarrow> (\<exists>u. holds_write (rpcs s u))) \<and>
      (\<forall>u. holds_write (rpcs s u) \<longrightarrow> writer (rw s) = u) \<and>
      ((\<forall>u. rpcs s u \<noteq> R_reset) \<longrightarrow> 0 <s readerCount (rw s) \<longrightarrow> \<not> noReaders (rw s)) \<and>
      (cs_owner (readerCountLock (rw s)) = 0 \<longrightarrow>
         0 <s readerCount (rw s) \<longrightarrow> \<not> noReaders (rw s))"
  proof (intro impI, elim conjE)
    assume r: "rw_run es (rw_init m0) = Inr s" and r0: "readerCount m0 = 0" "writer m0 = 0"
      and z: "0 \<notin> rw_who ` set es"
    have i: "rinv (rw s) (rpcs s)" using rw_inv_run [OF r0 z r] by (simp add: rw_inv_def)
    have z0: "rpcs s 0 = Out"
      and gc: "guard_inv (readerCountLock (rw s)) in_count_guard (rpcs s)"
      and h1: "\<And>u. holds_write (rpcs s u) \<Longrightarrow> writer (rw s) = u"
      and h2: "writer (rw s) \<noteq> 0 \<Longrightarrow> holds_write (rpcs s (writer (rw s)))"
      and k5: "(\<forall>u. rpcs s u \<noteq> R_reset) \<Longrightarrow> readerCount (rw s) \<noteq> 0 \<Longrightarrow> \<not> noReaders (rw s)"
      using i unfolding rinv_def by blast+
    have pos: "0 <s readerCount (rw s) \<Longrightarrow> readerCount (rw s) \<noteq> 0" by auto
    have a: "writer (rw s) \<noteq> 0 \<longleftrightarrow> (\<exists>u. holds_write (rpcs s u))"
    proof
      assume "writer (rw s) \<noteq> 0"
      then show "\<exists>u. holds_write (rpcs s u)" using h2 by blast
    next
      assume "\<exists>u. holds_write (rpcs s u)"
      then obtain u where u: "holds_write (rpcs s u)" by blast
      then have "u \<noteq> 0" using z0 by auto
      then show "writer (rw s) \<noteq> 0" using h1 [OF u] by simp
    qed
    have c: "(\<forall>u. rpcs s u \<noteq> R_reset) \<longrightarrow> 0 <s readerCount (rw s) \<longrightarrow> \<not> noReaders (rw s)"
      using k5 pos by blast
    have free: "cs_owner (readerCountLock (rw s)) = 0 \<Longrightarrow> \<forall>u. rpcs s u \<noteq> R_reset"
    proof
      fix u assume f: "cs_owner (readerCountLock (rw s)) = 0"
      show "rpcs s u \<noteq> R_reset"
      proof
        assume x: "rpcs s u = R_reset"
        then have "in_count_guard (rpcs s u)" by simp
        then have "u = 0" using gc f unfolding guard_inv_def by metis
        then show False using x z0 by simp
      qed
    qed
    have d: "cs_owner (readerCountLock (rw s)) = 0 \<longrightarrow>
         0 <s readerCount (rw s) \<longrightarrow> \<not> noReaders (rw s)"
      using free c by blast
    show "(writer (rw s) \<noteq> 0 \<longleftrightarrow> (\<exists>u. holds_write (rpcs s u))) \<and>
      (\<forall>u. holds_write (rpcs s u) \<longrightarrow> writer (rw s) = u) \<and>
      ((\<forall>u. rpcs s u \<noteq> R_reset) \<longrightarrow> 0 <s readerCount (rw s) \<longrightarrow> \<not> noReaders (rw s)) \<and>
      (cs_owner (readerCountLock (rw s)) = 0 \<longrightarrow>
         0 <s readerCount (rw s) \<longrightarrow> \<not> noReaders (rw s))"
      using a h1 c d by blast
  qed
  have loc: "rpcs s t = Rd \<and> writer (rw s) \<noteq> t \<and> 0 <s readerCount (rw s) \<and>
    readerCountLock (rw s) = \<lparr>cs_owner = 0, cs_depth = 0\<rparr> \<longrightarrow>
      rw_run [RCall t RwUnlock, RStep t, RStep t, RStep t, RStep t, RStep t, RStep t] s =
        Inr (s\<lparr>rw := (rw s)\<lparr>readerCount := readerCount (rw s) - 1,
                              noReaders := (if readerCount (rw s) - 1 = 0 then True
                                            else noReaders (rw s))\<rparr>,
              rpcs := (rpcs s)(t := Out)\<rparr>)"
    by (auto simp: Let_def EnterCriticalSection_def LeaveCriticalSection_def)
  show ?thesis using glob loc by blast
qed

text \<open>
  C7, where the code departs from it. \<open>qemu_rwmutex_init\<close> writes neither \<open>readerCount\<close>
  nor \<open>writer\<close>. On memory that holds 3 and 7 there, the initialised lock has a positive
  \<open>readerCount\<close> with \<open>noReaders\<close> signaled, and a \<open>writer\<close> that is not 0 while no thread
  holds the lock. The first \<open>qemu_rwmutex_wrlock\<close> fails the assertion that \<open>writer\<close> is
  NULL; and after a complete \<open>qemu_rwmutex_rdlock\<close> by thread 2, \<open>readerCount\<close> is 4
  and \<open>noReaders\<close> is still signaled.
\<close>

theorem rwmutex_init_leaves_count_and_writer:
  "qemu_rwmutex_init stale_rwmutex =
     \<lparr>readerCount = 3, writer = 7,
      readerCountLock = \<lparr>cs_owner = 0, cs_depth = 0\<rparr>,
      writerLock = \<lparr>cs_owner = 0, cs_depth = 0\<rparr>, noReaders = True\<rparr> \<and>
   0 <s readerCount (rw (rw_init stale_rwmutex)) \<and> noReaders (rw (rw_init stale_rwmutex)) \<and>
   writer (rw (rw_init stale_rwmutex)) = 7 \<and> rpcs (rw_init stale_rwmutex) 7 = Out \<and>
   rw_run [RCall 1 Wrlock, RStep 1, RStep 1, RStep 1, RStep 1] (rw_init stale_rwmutex) =
     Inl AssertFailed \<and>
   (case rw_run [RCall 2 Rdlock, RStep 2, RStep 2, RStep 2, RStep 2, RStep 2, RStep 2]
           (rw_init stale_rwmutex) of
      Inl e \<Rightarrow> False
    | Inr s \<Rightarrow> rpcs s 2 = Rd \<and> readerCount (rw s) = 4 \<and> noReaders (rw s) \<and>
        readerCountLock (rw s) = \<lparr>cs_owner = 0, cs_depth = 0\<rparr>)"
  by (simp add: stale_rwmutex_def rw_init_def qemu_rwmutex_init_def InitializeCriticalSection_def
      EnterCriticalSection_def LeaveCriticalSection_def word_sless_alt)

end
